theory Spec2Isabelle
  imports Complex_Main "HOL-Library.Word" "HOL-Library.Log_Nat"
begin

section \<open>JavaScript numbers\<close>

text \<open>
  Every number of \<^verbatim>\<open>App.tsx\<close> is an IEEE 754 binary64 value. Counters, pixel counts and
  \<^verbatim>\<open>Date.now()\<close> readings are integers; binary64 holds them exactly below \<open>2 ^ 53\<close>, which no
  array length exceeds, so they are modelled by \<open>nat\<close> and \<open>int\<close>. The
  operations that leave the integers, \<^verbatim>\<open>/\<close> and \<^verbatim>\<open>* 100\<close> on pixel counts and \<^verbatim>\<open>+\<close> on
  audio times, round their exact result to the nearest binary64 value, ties to the even
  significand: \<open>to_double\<close>. A decimal literal such as \<^verbatim>\<open>0.2\<close> is the binary64 value
  nearest to it, \<open>to_double (2 / 10)\<close>. The exponent range is left unbounded: the
  quotients, percentages and times computed here are far from overflow and from the
  subnormal numbers.
\<close>

definition round_half_even :: "rat \<Rightarrow> int" where
  "round_half_even x =
     (let f = \<lfloor>x\<rfloor>; r = x - of_int f
      in if r < 1 / 2 then f
         else if 1 / 2 < r then f + 1
         else if even f then f else f + 1)"

text \<open>The binary exponent of a positive rational: \<open>2 powi e \<le> x < 2 powi (e + 1)\<close>.\<close>

definition exponent2 :: "rat \<Rightarrow> int" where
  "exponent2 x =
     (if 1 \<le> x then int (floorlog 2 (nat \<lfloor>x\<rfloor>)) - 1
      else - int (floorlog 2 (nat (\<lceil>1 / x\<rceil> - 1))))"

definition to_double :: "rat \<Rightarrow> rat" where
  "to_double x =
     (if x = 0 then 0
      else let a = \<bar>x\<bar>; u = 2 powi (exponent2 a - 52)
           in sgn x * of_int (round_half_even (a / u)) * u)"

datatype jsnum = NaN | PosInfinity | NegInfinity | Num rat

text \<open>\<^verbatim>\<open>a / b\<close> on two finite numbers.\<close>

definition js_div :: "rat \<Rightarrow> rat \<Rightarrow> jsnum" where
  "js_div a b =
     (if b = 0 then (if a = 0 then NaN else if 0 < a then PosInfinity else NegInfinity)
      else Num (to_double (a / b)))"

text \<open>\<^verbatim>\<open>a + b\<close> on two finite numbers.\<close>

definition js_add :: "rat \<Rightarrow> rat \<Rightarrow> rat" where
  "js_add a b = to_double (a + b)"

text \<open>\<^verbatim>\<open>x * c\<close> for a finite literal \<open>c\<close>.\<close>

fun js_mul :: "jsnum \<Rightarrow> rat \<Rightarrow> jsnum" where
  "js_mul NaN c = NaN"
| "js_mul PosInfinity c = (if c = 0 then NaN else if 0 < c then PosInfinity else NegInfinity)"
| "js_mul NegInfinity c = (if c = 0 then NaN else if 0 < c then NegInfinity else PosInfinity)"
| "js_mul (Num a) c = Num (to_double (a * c))"

text \<open>\<^verbatim>\<open>x > y\<close>: false as soon as one side is \<^verbatim>\<open>NaN\<close>.\<close>

fun js_gt :: "jsnum \<Rightarrow> jsnum \<Rightarrow> bool" where
  "js_gt NaN y = False"
| "js_gt x NaN = False"
| "js_gt PosInfinity PosInfinity = False"
| "js_gt PosInfinity y = True"
| "js_gt NegInfinity y = False"
| "js_gt (Num a) PosInfinity = False"
| "js_gt (Num a) NegInfinity = True"
| "js_gt (Num a) (Num b) = (b < a)"

section \<open>Pixel buffers\<close>

text \<open>
  \<^verbatim>\<open>ImageData\<close>: \<open>data\<close> is a \<^verbatim>\<open>Uint8ClampedArray\<close> of RGBA bytes. The browser builds
  it with \<open>4 * width * height\<close> entries; the model states that where a theorem needs
  it (\<open>well_formed\<close>).
\<close>

record ImageData =
  width :: nat
  height :: nat
  data :: "8 word list"

definition well_formed :: "ImageData \<Rightarrow> bool" where
  "well_formed img = (length (data img) = 4 * (width img * height img))"

text \<open>\<^verbatim>\<open>data[i]\<close>: the byte, or \<^verbatim>\<open>undefined\<close> (\<open>None\<close>) past the end.\<close>

definition at_index :: "8 word list \<Rightarrow> nat \<Rightarrow> nat option" where
  "at_index xs i = (if i < length xs then Some (unat (xs ! i)) else None)"

text \<open>Comparisons with a literal; \<^verbatim>\<open>undefined\<close> converts to \<^verbatim>\<open>NaN\<close> and compares false.\<close>

definition byte_gt :: "nat option \<Rightarrow> nat \<Rightarrow> bool" where
  "byte_gt v n = (case v of None \<Rightarrow> False | Some x \<Rightarrow> n < x)"

definition byte_lt :: "nat option \<Rightarrow> nat \<Rightarrow> bool" where
  "byte_lt v n = (case v of None \<Rightarrow> False | Some x \<Rightarrow> x < n)"

section \<open>Fire heuristic\<close>

text \<open>The \<^verbatim>\<open>for\<close> loop of \<^verbatim>\<open>detectFire\<close>, lines 119 to 127.\<close>

function detectFire_loop :: "8 word list \<Rightarrow> nat \<Rightarrow> nat \<Rightarrow> nat" where
  "detectFire_loop d i firePixels =
     (if i < length d then
        (let r = at_index d i; g = at_index d (i + 1); b = at_index d (i + 2)
         in detectFire_loop d (i + 4)
              (if byte_gt r 200 \<and> byte_lt g 140 \<and> byte_lt b 40 then firePixels + 1
               else firePixels))
      else firePixels)"
  by pat_completeness auto
termination
  by (relation "measure (\<lambda>(d, i, firePixels). length d - i)") auto

declare detectFire_loop.simps [simp del]

definition detectFire :: "ImageData \<Rightarrow> bool" where
  "detectFire imageData =
     (let firePixels = detectFire_loop (data imageData) 0 0;
          totalPixels = width imageData * height imageData;
          firePercentage = js_mul (js_div (of_nat firePixels) (of_nat totalPixels)) 100
      in js_gt firePercentage (Num 1))"

section \<open>Motion heuristic\<close>

text \<open>
  \<^verbatim>\<open>Math.abs(a - b)\<close> on two array reads: \<open>None\<close> is \<^verbatim>\<open>NaN\<close>, which a missing operand
  produces and every later sum keeps.
\<close>

definition abs_diff :: "nat option \<Rightarrow> nat option \<Rightarrow> int option" where
  "abs_diff a b =
     (case a of None \<Rightarrow> None
      | Some x \<Rightarrow> (case b of None \<Rightarrow> None | Some y \<Rightarrow> Some \<bar>int x - int y\<bar>))"

definition nan_add :: "int option \<Rightarrow> int option \<Rightarrow> int option" where
  "nan_add a b =
     (case a of None \<Rightarrow> None
      | Some x \<Rightarrow> (case b of None \<Rightarrow> None | Some y \<Rightarrow> Some (x + y)))"

definition nan_gt :: "int option \<Rightarrow> int \<Rightarrow> bool" where
  "nan_gt v n = (case v of None \<Rightarrow> False | Some x \<Rightarrow> n < x)"

text \<open>The \<^verbatim>\<open>for\<close> loop of \<^verbatim>\<open>detectMotion\<close>, lines 159 to 165.\<close>

function diff_loop :: "8 word list \<Rightarrow> 8 word list \<Rightarrow> nat \<Rightarrow> nat \<Rightarrow> nat" where
  "diff_loop cur prev i diffCount =
     (if i < length cur then
        (let diff = nan_add (nan_add (abs_diff (at_index cur i) (at_index prev i))
                                     (abs_diff (at_index cur (i + 1)) (at_index prev (i + 1))))
                            (abs_diff (at_index cur (i + 2)) (at_index prev (i + 2)))
         in diff_loop cur prev (i + 4) (if nan_gt diff 100 then diffCount + 1 else diffCount))
      else diffCount)"
  by pat_completeness auto
termination
  by (relation "measure (\<lambda>(cur, prev, i, diffCount). length cur - i)") auto

declare diff_loop.simps [simp del]

text \<open>
  Lines 156 to 169 of \<^verbatim>\<open>detectMotion\<close>: the value of the local \<^verbatim>\<open>motionDetected\<close>, from
  the two frames, the canvas size and the \<^verbatim>\<open>sensitivity\<close> in scope.
\<close>

definition motionCheck :: "ImageData \<Rightarrow> ImageData \<Rightarrow> nat \<Rightarrow> nat \<Rightarrow> int \<Rightarrow> bool" where
  "motionCheck currentFrame previousFrame canvasWidth canvasHeight sens =
     (let diffCount = diff_loop (data currentFrame) (data previousFrame) 0 0;
          totalPixels = canvasWidth * canvasHeight;
          diffPercentage = js_mul (js_div (of_nat diffCount) (of_nat totalPixels)) 100
      in js_gt diffPercentage (js_div (of_int (100 - sens)) 3))"

section \<open>Application state\<close>

record DetectionState =
  isActive :: bool
  motionDetected :: bool
  fireDetected :: bool

record CapturedFrame =
  dataUrl :: string
  timestamp :: int

text \<open>
  The oscillator of \<^verbatim>\<open>startAlarm\<close> with the gain node it feeds: the waveform, the
  frequency in Hz, and the \<^verbatim>\<open>setValueAtTime (value, time)\<close> calls on the gain in the order
  made. Audio times are binary64 numbers of seconds.
\<close>

datatype Waveform = Sine | Square | Sawtooth | Triangle

record Tone =
  wave :: Waveform
  frequency :: rat
  gainEvents :: "(rat \<times> rat) list"
  running :: bool

text \<open>
  The component's state: the three \<^verbatim>\<open>useState\<close> values with \<^verbatim>\<open>sensitivity\<close>, and the
  refs. \<open>srcObject\<close> says whether a stream is attached to the video element,
  \<open>audioContextRef\<close> whether an \<^verbatim>\<open>AudioContext\<close> exists, \<open>detectionIntervalRef\<close> whether a
  timer handle is stored. The timer runs the \<^verbatim>\<open>detectMotion\<close> of the render in which
  monitoring was started, so the \<^verbatim>\<open>sensitivity\<close> it reads is the one of that render:
  \<open>tickSensitivity\<close>.
\<close>

record AppState =
  detection :: DetectionState
  error :: string
  capturedFrames :: "CapturedFrame list"
  sensitivity :: int
  previousFrameRef :: "ImageData option"
  audioContextRef :: bool
  oscillatorRef :: "Tone option"
  detectionIntervalRef :: bool
  lastCaptureTimeRef :: int
  srcObject :: bool
  tickSensitivity :: int

definition CAPTURE_COOLDOWN :: int where
  "CAPTURE_COOLDOWN = 1000"

definition initialState :: AppState where
  "initialState =
     \<lparr>detection = \<lparr>isActive = False, motionDetected = False, fireDetected = False\<rparr>,
      error = '''', capturedFrames = [], sensitivity = 30, previousFrameRef = None,
      audioContextRef = False, oscillatorRef = None, detectionIntervalRef = False,
      lastCaptureTimeRef = 0, srcObject = False, tickSensitivity = 30\<rparr>"

section \<open>Alarm\<close>

text \<open>\<open>currentTime\<close> is \<^verbatim>\<open>audioContext.currentTime\<close> when \<^verbatim>\<open>startAlarm\<close> runs.\<close>

definition startAlarm :: "rat \<Rightarrow> AppState \<Rightarrow> AppState" where
  "startAlarm currentTime s =
     (let s1 = (if \<not> audioContextRef s then s\<lparr>audioContextRef := True\<rparr> else s)
      in if oscillatorRef s1 \<noteq> None then s1
         else let now = currentTime
              in s1\<lparr>oscillatorRef :=
                     Some \<lparr>wave = Square, frequency = 440,
                           gainEvents =
                             [(1, now), (0, js_add now (to_double (2 / 10))),
                              (1, js_add now (to_double (4 / 10))),
                              (0, js_add now (to_double (6 / 10)))],
                           running = True\<rparr>\<rparr>)"

definition stopAlarm :: "AppState \<Rightarrow> AppState" where
  "stopAlarm s = (if oscillatorRef s \<noteq> None then s\<lparr>oscillatorRef := None\<rparr> else s)"

text \<open>
  What the gain is at time \<open>t\<close>, after the Web Audio rule for \<^verbatim>\<open>setValueAtTime\<close>: the
  value of the latest event at or before \<open>t\<close>, and the default gain 1 before the first.
  The events are taken in ascending time, as \<^verbatim>\<open>startAlarm\<close> issues them.
\<close>

definition gainAt :: "(rat \<times> rat) list \<Rightarrow> rat \<Rightarrow> rat" where
  "gainAt events t = foldl (\<lambda>g (v, T). if T \<le> t then v else g) 1 events"

section \<open>Camera lifecycle\<close>

text \<open>
  \<^verbatim>\<open>startCamera\<close>: \<open>granted\<close> is whether \<^verbatim>\<open>getUserMedia\<close> resolves, \<open>present\<close>
  whether \<^verbatim>\<open>videoRef.current\<close> is set. The handler it installs is \<open>onloadedmetadata\<close>.
\<close>

definition startCamera :: "bool \<Rightarrow> bool \<Rightarrow> AppState \<Rightarrow> AppState" where
  "startCamera granted present s =
     (if granted then
        (if present then s\<lparr>srcObject := True, tickSensitivity := sensitivity s\<rparr> else s)
          \<lparr>error := ''''\<rparr>
      else s\<lparr>error :=
               ''Failed to access camera. Please ensure camera permissions are granted.''\<rparr>)"

definition onloadedmetadata :: "AppState \<Rightarrow> AppState" where
  "onloadedmetadata s =
     s\<lparr>detection := (detection s)\<lparr>isActive := True\<rparr>, detectionIntervalRef := True\<rparr>"

definition stopCamera :: "AppState \<Rightarrow> AppState" where
  "stopCamera s =
     (let s1 = (if srcObject s then s\<lparr>srcObject := False\<rparr> else s);
          s2 = (if detectionIntervalRef s1 then s1\<lparr>detectionIntervalRef := False\<rparr> else s1);
          s3 = stopAlarm s2
      in s3\<lparr>detection :=
              (detection s3)\<lparr>isActive := False, motionDetected := False,
                              fireDetected := False\<rparr>\<rparr>)"

definition toggleDetection :: "bool \<Rightarrow> bool \<Rightarrow> AppState \<Rightarrow> AppState" where
  "toggleDetection granted present s =
     (if \<not> isActive (detection s) then startCamera granted present s
      else (stopCamera s)\<lparr>capturedFrames := []\<rparr>)"

section \<open>Detection tick\<close>

text \<open>
  What one run of \<^verbatim>\<open>detectMotion\<close> reads from the browser: the two refs, the video's
  decoded size, whether the canvas gives a 2D context, the bytes \<^verbatim>\<open>getImageData\<close>
  returns, the string \<^verbatim>\<open>toDataURL\<close> returns, the three \<^verbatim>\<open>Date.now()\<close> readings by the
  place that reads them, and the audio clock. \<open>now1\<close> is read by the cooldown test of
  line 173, \<open>now2\<close> by the entry's \<^verbatim>\<open>timestamp\<close> of line 178, \<open>now3\<close> by the cooldown stamp of
  line 180. The timestamp is read inside the updater passed to \<^verbatim>\<open>setCapturedFrames\<close>, which
  React runs when it renders, after \<^verbatim>\<open>detectMotion\<close> has returned: in time, \<open>now1\<close> comes
  first, then \<open>now3\<close>, then \<open>now2\<close>. The updaters themselves are applied in the order of
  their calls.
\<close>

record TickEnv =
  videoPresent :: bool
  canvasPresent :: bool
  videoWidth :: nat
  videoHeight :: nat
  contextAvailable :: bool
  frameData :: "8 word list"
  dataURL :: string
  now1 :: int
  now2 :: int
  now3 :: int
  audioTime :: rat

definition captureFrame :: "TickEnv \<Rightarrow> string option" where
  "captureFrame env =
     (if \<not> videoPresent env \<or> \<not> canvasPresent env \<or> videoWidth env = 0 \<or> videoHeight env = 0
      then None
      else if \<not> contextAvailable env then None
      else Some (dataURL env))"

text \<open>The updater passed to \<^verbatim>\<open>setDetection\<close> on lines 149 to 153.\<close>

definition updateFire :: "rat \<Rightarrow> bool \<Rightarrow> AppState \<Rightarrow> AppState" where
  "updateFire currentTime fire s =
     (let prev = detection s;
          s1 = (if fire \<and> \<not> fireDetected prev then startAlarm currentTime s
                else if \<not> fire \<and> fireDetected prev then stopAlarm s
                else s)
      in s1\<lparr>detection := prev\<lparr>fireDetected := fire\<rparr>\<rparr>)"

text \<open>Lines 173 to 182: the capture, behind the cooldown test.\<close>

definition captureIfDue :: "TickEnv \<Rightarrow> bool \<Rightarrow> bool \<Rightarrow> AppState \<Rightarrow> AppState" where
  "captureIfDue env motion fire s =
     (if (motion \<or> fire) \<and> now1 env - lastCaptureTimeRef s > CAPTURE_COOLDOWN then
        (case captureFrame env of
           None \<Rightarrow> s
         | Some frameDataUrl \<Rightarrow>
             if frameDataUrl \<noteq> '''' then
               s\<lparr>capturedFrames :=
                    capturedFrames s @ [\<lparr>dataUrl = frameDataUrl, timestamp = now2 env\<rparr>],
                  lastCaptureTimeRef := now3 env\<rparr>
             else s)
      else s)"

definition detectMotion :: "TickEnv \<Rightarrow> AppState \<Rightarrow> AppState" where
  "detectMotion env s =
     (if \<not> videoPresent env \<or> \<not> canvasPresent env \<or> videoWidth env = 0 \<or> videoHeight env = 0
      then s
      else if \<not> contextAvailable env then s
      else
        let currentFrame =
              \<lparr>width = videoWidth env, height = videoHeight env, data = frameData env\<rparr>;
            fire = detectFire currentFrame;
            s1 = updateFire (audioTime env) fire s;
            s2 = (case previousFrameRef s1 of
                    None \<Rightarrow> s1
                  | Some previousFrame \<Rightarrow>
                      let motion = motionCheck currentFrame previousFrame (videoWidth env)
                                     (videoHeight env) (tickSensitivity s1);
                          s' = s1\<lparr>detection := (detection s1)\<lparr>motionDetected := motion\<rparr>\<rparr>
                      in captureIfDue env motion fire s')
        in s2\<lparr>previousFrameRef := Some currentFrame\<rparr>)"

section \<open>Timelapse assembly\<close>

text \<open>
  What \<^verbatim>\<open>createTimelapse\<close> reads from the browser: whether the new canvas gives a 2D
  context, what loading a data URL into an \<^verbatim>\<open>Image\<close> yields (its size on \<^verbatim>\<open>onload\<close>,
  \<open>None\<close> on \<^verbatim>\<open>onerror\<close>), whether \<^verbatim>\<open>MediaRecorder\<close> accepts the VP9 type (its constructor
  throws otherwise), and the \<^verbatim>\<open>Date.now()\<close> reading that names the file.
\<close>

record TimelapseEnv =
  ctxAvailable :: bool
  decode :: "string \<Rightarrow> (nat \<times> nat) option"
  mimeTypeSupported :: bool
  stopTime :: int

datatype ConsoleError = FailedFirstFrame | FailedFrame nat

text \<open>
  What a run leaves behind: the canvas size once set, the recorder's state, the indices
  of the frames drawn, the console, and one entry per download triggered, holding the
  number in the name \<^verbatim>\<open>timelapse-NUMBER.webm\<close>.
\<close>

record Assembly =
  canvasSize :: "(nat \<times> nat) option"
  recorderStarted :: bool
  recorderStopped :: bool
  drawn :: "nat list"
  console :: "ConsoleError list"
  downloads :: "int list"

definition noAssembly :: Assembly where
  "noAssembly =
     \<lparr>canvasSize = None, recorderStarted = False, recorderStopped = False, drawn = [],
      console = [], downloads = []\<rparr>"

text \<open>
  \<^verbatim>\<open>drawNextFrame\<close> with the callbacks it schedules (\<^verbatim>\<open>onload\<close> or \<^verbatim>\<open>onerror\<close>, then
  \<^verbatim>\<open>setTimeout\<close>), run one after the other; \<^verbatim>\<open>mediaRecorder.stop()\<close> fires \<^verbatim>\<open>onstop\<close>,
  which downloads the file.
\<close>

function drawNextFrame ::
  "TimelapseEnv \<Rightarrow> CapturedFrame list \<Rightarrow> nat \<Rightarrow> Assembly \<Rightarrow> Assembly" where
  "drawNextFrame env frames currentFrame a =
     (if currentFrame \<ge> length frames then
        a\<lparr>recorderStopped := True, downloads := downloads a @ [stopTime env]\<rparr>
      else
        (case decode env (dataUrl (frames ! currentFrame)) of
           Some img \<Rightarrow>
             drawNextFrame env frames (currentFrame + 1) (a\<lparr>drawn := drawn a @ [currentFrame]\<rparr>)
         | None \<Rightarrow>
             drawNextFrame env frames (currentFrame + 1)
               (a\<lparr>console := console a @ [FailedFrame currentFrame]\<rparr>)))"
  by pat_completeness auto
termination
  by (relation "measure (\<lambda>(env, frames, currentFrame, a). length frames - currentFrame)") auto

declare drawNextFrame.simps [simp del]

definition createTimelapse :: "TimelapseEnv \<Rightarrow> AppState \<Rightarrow> AppState \<times> Assembly" where
  "createTimelapse env s =
     (if length (capturedFrames s) < 2 then
        (s\<lparr>error := ''Not enough frames captured for timelapse''\<rparr>, noAssembly)
      else if \<not> ctxAvailable env then (s, noAssembly)
      else
        (case decode env (dataUrl (capturedFrames s ! 0)) of
           None \<Rightarrow> (s, noAssembly\<lparr>console := [FailedFirstFrame]\<rparr>)
         | Some firstImage \<Rightarrow>
             if \<not> mimeTypeSupported env then (s, noAssembly\<lparr>canvasSize := Some firstImage\<rparr>)
             else
               (s, drawNextFrame env (capturedFrames s) 0
                     (noAssembly\<lparr>canvasSize := Some firstImage, recorderStarted := True\<rparr>))))"

section \<open>Runs\<close>

text \<open>
  The events that change the state, in any interleaving: a timer tick, a click on the
  monitoring button (with the outcome of \<^verbatim>\<open>getUserMedia\<close>), the video's metadata
  arriving, and the sensitivity slider.
\<close>

datatype Event =
  Tick TickEnv
  | Toggle bool bool
  | LoadedMetadata
  | SetSensitivity int

fun step :: "AppState \<Rightarrow> Event \<Rightarrow> AppState" where
  "step s (Tick env) = detectMotion env s"
| "step s (Toggle granted present) = toggleDetection granted present s"
| "step s LoadedMetadata = onloadedmetadata s"
| "step s (SetSensitivity v) = s\<lparr>sensitivity := v\<rparr>"

definition run :: "AppState \<Rightarrow> Event list \<Rightarrow> AppState" where
  "run s evs = foldl step s evs"

text \<open>
  A clock that does not run backwards, from \<open>t\<close> on: each reading of \<^verbatim>\<open>Date.now()\<close> is at
  least the one taken before it. In a tick the cooldown test reads first, the stamp next,
  and the entry's timestamp last, when React renders; the next tick comes after that.
\<close>

fun clockMonotone :: "int \<Rightarrow> Event list \<Rightarrow> bool" where
  "clockMonotone t [] = True"
| "clockMonotone t (Tick env # evs) =
     (t \<le> now1 env \<and> now1 env \<le> now3 env \<and> now3 env \<le> now2 env \<and> clockMonotone (now2 env) evs)"
| "clockMonotone t (ev # evs) = clockMonotone t evs"

text \<open>
  In every tick the cooldown test reads the clock no later than the other two places,
  and the entry's timestamp is read at most \<open>delay\<close> milliseconds after the stamp.
\<close>

fun renderWithin :: "int \<Rightarrow> Event list \<Rightarrow> bool" where
  "renderWithin delay [] = True"
| "renderWithin delay (Tick env # evs) =
     (now1 env \<le> now3 env \<and> now1 env \<le> now2 env \<and> now2 env - now3 env \<le> delay
      \<and> renderWithin delay evs)"
| "renderWithin delay (ev # evs) = renderWithin delay evs"

section \<open>The heuristics in the words of the specification\<close>

text \<open>
  Pixel \<open>k\<close> of a buffer is the four bytes from index \<open>4 * k\<close>. A pixel is fire-coloured
  when red exceeds 200, green is below 140 and blue is below 40.
\<close>

definition fireColoured :: "8 word list \<Rightarrow> nat \<Rightarrow> bool" where
  "fireColoured d k =
     (200 < unat (d ! (4 * k)) \<and> unat (d ! (4 * k + 1)) < 140 \<and> unat (d ! (4 * k + 2)) < 40)"

definition fireCount :: "ImageData \<Rightarrow> nat" where
  "fireCount img = length (filter (fireColoured (data img)) [0..<width img * height img])"

text \<open>The channel difference at pixel \<open>k\<close>: the absolute differences of red, green and blue, summed.\<close>

definition channelDiff :: "8 word list \<Rightarrow> 8 word list \<Rightarrow> nat \<Rightarrow> int" where
  "channelDiff c p k =
     \<bar>int (unat (c ! (4 * k))) - int (unat (p ! (4 * k)))\<bar>
     + \<bar>int (unat (c ! (4 * k + 1))) - int (unat (p ! (4 * k + 1)))\<bar>
     + \<bar>int (unat (c ! (4 * k + 2))) - int (unat (p ! (4 * k + 2)))\<bar>"

definition changedCount :: "ImageData \<Rightarrow> ImageData \<Rightarrow> nat" where
  "changedCount cur prev =
     length (filter (\<lambda>k. 100 < channelDiff (data cur) (data prev) k)
                    [0..<width cur * height cur])"

text \<open>Every pixel of a buffer has red, green and blue equal to \<open>v\<close>.\<close>

definition uniformColour :: "8 word \<Rightarrow> ImageData \<Rightarrow> bool" where
  "uniformColour v img =
     list_all (\<lambda>k. data img ! (4 * k) = v \<and> data img ! (4 * k + 1) = v \<and> data img ! (4 * k + 2) = v)
       [0..<width img * height img]"

definition sameDimensions :: "ImageData \<Rightarrow> ImageData \<Rightarrow> bool" where
  "sameDimensions a b = (width a = width b \<and> height a = height b)"

text \<open>Every two entries of the capture store are at least \<open>gap\<close> milliseconds apart.\<close>

fun spaced :: "int \<Rightarrow> CapturedFrame list \<Rightarrow> bool" where
  "spaced gap [] = True"
| "spaced gap (f # fs) = ((\<forall>g \<in> set fs. gap \<le> timestamp g - timestamp f) \<and> spaced gap fs)"

text \<open>
  The gate the specification describes for the alarm, \<open>t\<close> seconds after the start: on
  for 200 ms, off for 200 ms, again and again.
\<close>

definition repeatingGate :: "rat \<Rightarrow> rat" where
  "repeatingGate t = (if even \<lfloor>t * 5\<rfloor> then 1 else 0)"

text \<open>
  The changed pixels as a percentage of all pixels, and the threshold
  \<open>(100 - sensitivity) / 3\<close>, both as exact rationals.
\<close>

definition changedPercentage :: "ImageData \<Rightarrow> ImageData \<Rightarrow> rat" where
  "changedPercentage cur prev =
     of_nat (changedCount cur prev) / of_nat (width cur * height cur) * 100"

definition motionThreshold :: "int \<Rightarrow> rat" where
  "motionThreshold sens = of_int (100 - sens) / 3"

text \<open>The gain of the tone that is sounding, if one is.\<close>

definition currentGain :: "AppState \<Rightarrow> rat \<Rightarrow> rat option" where
  "currentGain s t = map_option (\<lambda>tone. gainAt (gainEvents tone) t) (oscillatorRef s)"

text \<open>Ticks only, as a run.\<close>

definition ticks :: "TickEnv list \<Rightarrow> Event list" where
  "ticks envs = map Tick envs"

text \<open>
  What the capture store and the cooldown stamp satisfy when every entry's timestamp was
  read at most \<open>delay\<close> milliseconds after its stamp: no entry is later than the stamp by
  more than \<open>delay\<close>, and the entries are spaced accordingly.
\<close>

definition storeInvariant :: "int \<Rightarrow> AppState \<Rightarrow> bool" where
  "storeInvariant delay s =
     (spaced (CAPTURE_COOLDOWN + 1 - delay) (capturedFrames s)
      \<and> (\<forall>f \<in> set (capturedFrames s). timestamp f \<le> lastCaptureTimeRef s + delay))"

text \<open>Frame \<open>i\<close> of the sequence loads.\<close>

definition decodes :: "TimelapseEnv \<Rightarrow> CapturedFrame list \<Rightarrow> nat \<Rightarrow> bool" where
  "decodes env frames i = (decode env (dataUrl (frames ! i)) \<noteq> None)"

section \<open>Concrete inputs\<close>

text \<open>A single fire-coloured pixel, and the first tick of a session that sees it.\<close>

definition fireFrame :: "8 word list" where
  "fireFrame = [255, 0, 0, 255]"

definition firstTick :: TickEnv where
  "firstTick =
     \<lparr>videoPresent = True, canvasPresent = True, videoWidth = 1, videoHeight = 1,
      contextAvailable = True, frameData = fireFrame, dataURL = ''data:image/webp;base64,AA'',
      now1 = 5000, now2 = 5000, now3 = 5000, audioTime = 0\<rparr>"

text \<open>
  A video that changed from one pixel wide and two high to two wide and one high: the
  retained frame is black, the new one white.
\<close>

definition tallFrame :: ImageData where
  "tallFrame = \<lparr>width = 1, height = 2, data = [0, 0, 0, 255, 0, 0, 0, 255]\<rparr>"

definition tallPrevious :: AppState where
  "tallPrevious = initialState\<lparr>previousFrameRef := Some tallFrame\<rparr>"

definition wideTick :: TickEnv where
  "wideTick =
     \<lparr>videoPresent = True, canvasPresent = True, videoWidth = 2, videoHeight = 1,
      contextAvailable = True, frameData = [255, 255, 255, 255, 255, 255, 255, 255],
      dataURL = ''data:image/webp;base64,AA'',
      now1 = 5000, now2 = 5002, now3 = 5001, audioTime = 0\<rparr>"

text \<open>
  Two ticks of one session. The first passes the cooldown test and stamps at 5000 ms, and
  its entry's timestamp is read at 5002 ms, when React renders. The second passes the test
  at 6001 ms.
\<close>

definition stampedTick :: TickEnv where
  "stampedTick =
     \<lparr>videoPresent = True, canvasPresent = True, videoWidth = 2, videoHeight = 1,
      contextAvailable = True, frameData = [255, 255, 255, 255, 255, 255, 255, 255],
      dataURL = ''data:image/webp;base64,AA'',
      now1 = 5000, now2 = 5002, now3 = 5000, audioTime = 0\<rparr>"

definition followingTick :: TickEnv where
  "followingTick =
     \<lparr>videoPresent = True, canvasPresent = True, videoWidth = 2, videoHeight = 1,
      contextAvailable = True, frameData = [0, 0, 0, 255, 0, 0, 0, 255],
      dataURL = ''data:image/webp;base64,BB'',
      now1 = 6001, now2 = 6001, now3 = 6001, audioTime = 1\<rparr>"

text \<open>A session that captured at 4000 ms, and a tick 500 ms later.\<close>

definition monitoring :: AppState where
  "monitoring =
     tallPrevious
       \<lparr>detection := \<lparr>isActive = True, motionDetected = True, fireDetected = False\<rparr>,
        capturedFrames := [\<lparr>dataUrl = ''data:image/webp;base64,AA'', timestamp = 4000\<rparr>],
        detectionIntervalRef := True, lastCaptureTimeRef := 4000, srcObject := True\<rparr>"

definition soonTick :: TickEnv where
  "soonTick = wideTick\<lparr>now1 := 4500, now2 := 4500, now3 := 4500\<rparr>"

definition exactTick :: TickEnv where
  "exactTick = wideTick\<lparr>now1 := 5000, now2 := 5000, now3 := 5000\<rparr>"

text \<open>Stores of one, two and three frames, and a browser that cannot load one of the URLs.\<close>

definition oneFrame :: AppState where
  "oneFrame =
     initialState\<lparr>capturedFrames :=
       [\<lparr>dataUrl = ''data:image/webp;base64,AA'', timestamp = 2000\<rparr>]\<rparr>"

definition brokenFirst :: AppState where
  "brokenFirst =
     initialState\<lparr>capturedFrames :=
       [\<lparr>dataUrl = ''data:broken'', timestamp = 2000\<rparr>,
        \<lparr>dataUrl = ''data:image/webp;base64,AA'', timestamp = 4000\<rparr>]\<rparr>"

definition brokenSecond :: AppState where
  "brokenSecond =
     initialState\<lparr>capturedFrames :=
       [\<lparr>dataUrl = ''data:image/webp;base64,AA'', timestamp = 2000\<rparr>,
        \<lparr>dataUrl = ''data:broken'', timestamp = 4000\<rparr>,
        \<lparr>dataUrl = ''data:image/webp;base64,AA'', timestamp = 6000\<rparr>]\<rparr>"

definition oneBroken :: TimelapseEnv where
  "oneBroken =
     \<lparr>ctxAvailable = True,
      decode = (\<lambda>u. if u = ''data:broken'' then None else Some (640, 480)),
      mimeTypeSupported = True, stopTime = 9000\<rparr>"

text \<open>
  Ten by ten pixels, the first one fire-coloured and the rest black: exactly one percent.
  One black, one white and no pixel at all.
\<close>

definition onePercent :: ImageData where
  "onePercent = \<lparr>width = 10, height = 10, data = fireFrame @ replicate 396 0\<rparr>"

definition twoOfHundred :: ImageData where
  "twoOfHundred = \<lparr>width = 10, height = 10, data = fireFrame @ fireFrame @ replicate 392 0\<rparr>"

definition blackPixel :: ImageData where
  "blackPixel = \<lparr>width = 1, height = 1, data = [0, 0, 0, 255]\<rparr>"

definition whitePixel :: ImageData where
  "whitePixel = \<lparr>width = 1, height = 1, data = [255, 255, 255, 255]\<rparr>"

definition emptyBuffer :: ImageData where
  "emptyBuffer = \<lparr>width = 0, height = 0, data = []\<rparr>"

text \<open>
  Five by five pixels: seven white ones followed by eighteen black ones, against a frame
  that is black throughout. And one pixel whose red differs by 1 from a black one.
\<close>

definition sevenChanged :: ImageData where
  "sevenChanged =
     \<lparr>width = 5, height = 5, data = replicate 28 255 @ replicate 72 0\<rparr>"

definition blackFive :: ImageData where
  "blackFive = \<lparr>width = 5, height = 5, data = replicate 100 0\<rparr>"

definition faintPixel :: ImageData where
  "faintPixel = \<lparr>width = 1, height = 1, data = [1, 0, 0, 255]\<rparr>"

section \<open>The loops count pixels\<close>

lemma detectFire_loop_count:
  "length d = 4 * n \<Longrightarrow> k \<le> n \<Longrightarrow>
   detectFire_loop d (4 * k) acc = acc + length (filter (fireColoured d) [k..<n])"
proof (induction "n - k" arbitrary: k acc)
  case 0
  then show ?case by (subst detectFire_loop.simps) simp
next
  case (Suc j)
  then have kn: "k < n" by simp
  have step: "[k..<n] = k # [Suc k..<n]" using kn by (simp add: upt_conv_Cons)
  have idx: "4 * k < length d" "4 * k + 1 < length d" "4 * k + 2 < length d"
    using kn Suc.prems by auto
  have IH: "detectFire_loop d (4 * Suc k) acc' = acc' + length (filter (fireColoured d) [Suc k..<n])"
    for acc'
    using Suc.hyps(1)[of "Suc k" acc'] Suc.hyps(2) Suc.prems kn by simp
  have "detectFire_loop d (4 * k) acc =
          detectFire_loop d (4 * Suc k) (if fireColoured d k then acc + 1 else acc)"
    using idx
    by (subst detectFire_loop.simps)
       (simp add: at_index_def byte_gt_def byte_lt_def fireColoured_def Let_def add.commute)
  then show ?case
    unfolding IH step by simp
qed

lemma diff_loop_count:
  "length c = 4 * n \<Longrightarrow> length p = 4 * n \<Longrightarrow> k \<le> n \<Longrightarrow>
   diff_loop c p (4 * k) acc = acc + length (filter (\<lambda>k. 100 < channelDiff c p k) [k..<n])"
proof (induction "n - k" arbitrary: k acc)
  case 0
  then show ?case by (subst diff_loop.simps) simp
next
  case (Suc j)
  then have kn: "k < n" by simp
  have step: "[k..<n] = k # [Suc k..<n]" using kn by (simp add: upt_conv_Cons)
  have idx: "4 * k < 4 * n" "4 * k + 1 < 4 * n" "4 * k + 2 < 4 * n"
    using kn by auto
  have IH: "diff_loop c p (4 * Suc k) acc' =
            acc' + length (filter (\<lambda>k. 100 < channelDiff c p k) [Suc k..<n])"
    for acc'
    using Suc.hyps(1)[of "Suc k" acc'] Suc.hyps(2) Suc.prems kn by simp
  have "diff_loop c p (4 * k) acc =
          diff_loop c p (4 * Suc k) (if 100 < channelDiff c p k then acc + 1 else acc)"
    using idx Suc.prems(1,2)
    by (subst diff_loop.simps)
       (simp add: at_index_def abs_diff_def nan_add_def nan_gt_def channelDiff_def Let_def
          add.commute)
  then show ?case
    unfolding IH step by simp
qed

section \<open>Rounding to binary64\<close>

lemma rhe_bounds:
  "\<bar>of_int (round_half_even y) - y\<bar> \<le> 1 / 2"
proof -
  have "of_int \<lfloor>y\<rfloor> \<le> y" "y < of_int \<lfloor>y\<rfloor> + 1" by linarith+
  then show ?thesis
    unfolding round_half_even_def Let_def by (auto simp: abs_le_iff)
qed

lemma rhe_floor_cases:
  "round_half_even y = \<lfloor>y\<rfloor> \<or> round_half_even y = \<lfloor>y\<rfloor> + 1"
  unfolding round_half_even_def Let_def by auto

lemma rhe_of_int [simp]: "round_half_even (of_int n) = n"
  unfolding round_half_even_def Let_def by simp

lemma rhe_mono:
  assumes "y \<le> z"
  shows "round_half_even y \<le> round_half_even z"
proof (cases "\<lfloor>y\<rfloor> = \<lfloor>z\<rfloor>")
  case True
  have "y - of_int \<lfloor>y\<rfloor> \<le> z - of_int \<lfloor>z\<rfloor>" using assms True by simp
  then show ?thesis
    unfolding round_half_even_def Let_def using True by auto
next
  case False
  then have "\<lfloor>y\<rfloor> < \<lfloor>z\<rfloor>" using floor_mono[OF assms] by linarith
  moreover have "round_half_even y \<le> \<lfloor>y\<rfloor> + 1" using rhe_floor_cases[of y] by auto
  moreover have "\<lfloor>z\<rfloor> \<le> round_half_even z" using rhe_floor_cases[of z] by auto
  ultimately show ?thesis by linarith
qed

lemma exponent2_bounds:
  assumes "0 < x"
  shows "2 powi (exponent2 x) \<le> x" and "x < 2 powi (exponent2 x + 1)"
proof -
  have "2 powi (exponent2 x) \<le> x \<and> x < 2 powi (exponent2 x + 1)"
  proof (cases "1 \<le> x")
    case True
    define n where "n = nat \<lfloor>x\<rfloor>"
    define k where "k = floorlog 2 n"
    have n1: "0 < n" using True by (simp add: n_def)
    have fb: "2 ^ (k - 1) \<le> n" "n < 2 ^ k"
      using floorlog_bounds[of n 2] n1 by (simp_all add: k_def)
    have k1: "1 \<le> k" using fb(2) n1 by (cases k) auto
    have e: "exponent2 x = int (k - 1)"
      using True k1 by (simp add: exponent2_def n_def k_def)
    have nx: "of_nat n \<le> x" using True by (simp add: n_def)
    have xn: "x < of_nat (n + 1)"
      using True by (simp add: n_def) linarith
    have "(2::rat) ^ (k - 1) \<le> of_nat n"
      using fb(1) by (metis of_nat_le_iff of_nat_numeral of_nat_power)
    then have lo: "(2::rat) ^ (k - 1) \<le> x" using nx by linarith
    have "of_nat (n + 1) \<le> (2::rat) ^ k"
      using fb(2) by (metis Suc_eq_plus1 Suc_leI of_nat_le_iff of_nat_numeral of_nat_power)
    then have hi: "x < (2::rat) ^ k" using xn by linarith
    have p1: "(2::rat) powi (int (k - 1)) = 2 ^ (k - 1)" by (rule power_int_of_nat)
    have "int (k - 1) + 1 = int k" using k1 by simp
    then have p2: "(2::rat) powi (int (k - 1) + 1) = 2 ^ k" by (simp only: power_int_of_nat)
    show ?thesis using lo hi unfolding e p1 p2 by simp
  next
    case False
    define y where "y = 1 / x"
    define m where "m = nat (\<lceil>y\<rceil> - 1)"
    define k where "k = floorlog 2 m"
    have y1: "1 < y" using False assms by (simp add: y_def)
    then have c2: "2 \<le> \<lceil>y\<rceil>" by linarith
    then have m1: "0 < m" by (simp add: m_def)
    have fb: "2 ^ (k - 1) \<le> m" "m < 2 ^ k"
      using floorlog_bounds[of m 2] m1 by (simp_all add: k_def)
    have k1: "1 \<le> k" using fb(2) m1 by (cases k) auto
    have e: "exponent2 x = - int k"
      using False by (simp add: exponent2_def m_def k_def y_def)
    have my: "of_nat m < y" using c2 by (simp add: m_def) linarith
    have ym: "y \<le> of_nat (m + 1)"
      using c2 by (simp add: m_def)
    have "(2::rat) ^ (k - 1) \<le> of_nat m"
      using fb(1) by (metis of_nat_le_iff of_nat_numeral of_nat_power)
    then have lo: "(2::rat) ^ (k - 1) < y" using my by linarith
    have "of_nat (m + 1) \<le> (2::rat) ^ k"
      using fb(2) by (metis Suc_eq_plus1 Suc_leI of_nat_le_iff of_nat_numeral of_nat_power)
    then have hi: "y \<le> (2::rat) ^ k" using ym by linarith
    have x_eq: "x = 1 / y" using assms by (simp add: y_def)
    have y0: "0 < y" using y1 by linarith
    have pk: "(2::rat) powi (- int k) = 1 / 2 ^ k"
      by (simp only: power_int_minus_divide power_int_of_nat)
    have "- int k + 1 = - int (k - 1)" using k1 by simp
    then have pk1: "(2::rat) powi (- int k + 1) = 1 / 2 ^ (k - 1)"
      by (simp only: power_int_minus_divide power_int_of_nat)
    have A: "2 powi (- int k) \<le> x"
      unfolding x_eq pk using frac_le[of 1 1 y "2 ^ k"] hi y0 by simp
    have B: "x < 2 powi (- int k + 1)"
      unfolding x_eq pk1 using frac_less2[of 1 1 "2 ^ (k - 1)" y] lo by simp
    show ?thesis using A B unfolding e by simp
  qed
  then show "2 powi (exponent2 x) \<le> x" and "x < 2 powi (exponent2 x + 1)" by simp_all
qed


lemma ulp_facts:
  fixes e :: int
  defines "u \<equiv> (2::rat) powi (e - 52)"
  shows "0 < u" and "u * 2 ^ 52 = 2 powi e" and "u * 2 ^ 53 = 2 powi (e + 1)"
proof -
  show "0 < u" by (simp add: u_def)
  have "u = 2 powi e / 2 powi 52" unfolding u_def by (rule power_int_diff) simp
  then show a: "u * 2 ^ 52 = 2 powi e" by simp
  have "(2::rat) powi (e + 1) = 2 powi e * 2 powi 1" by (rule power_int_add) simp
  then show "u * 2 ^ 53 = 2 powi (e + 1)" using a by simp
qed

lemma to_double_pos:
  assumes "0 < x"
  shows "to_double x =
         of_int (round_half_even (x / 2 powi (exponent2 x - 52))) * 2 powi (exponent2 x - 52)"
  using assms by (simp add: to_double_def Let_def)

lemma to_double_error:
  assumes "0 \<le> x"
  shows "\<bar>to_double x - x\<bar> \<le> x / 2 ^ 53"
proof (cases "x = 0")
  case True
  then show ?thesis by (simp add: to_double_def)
next
  case False
  then have x0: "0 < x" using assms by simp
  define u where "u = (2::rat) powi (exponent2 x - 52)"
  define r where "r = (of_int (round_half_even (x / u)) :: rat)"
  have u0: "0 < u" and u52: "u * 2 ^ 52 = 2 powi (exponent2 x)"
    using ulp_facts[of "exponent2 x"] by (simp_all add: u_def)
  have td: "to_double x = r * u" using to_double_pos[OF x0] by (simp add: u_def r_def)
  have "\<bar>r - x / u\<bar> \<le> 1 / 2" unfolding r_def by (rule rhe_bounds)
  then have "\<bar>r - x / u\<bar> * u \<le> 1 / 2 * u"
    using u0 by (intro mult_right_mono) simp_all
  moreover have "\<bar>r - x / u\<bar> * u = \<bar>r * u - x\<bar>"
  proof -
    have "\<bar>r - x / u\<bar> * u = \<bar>r - x / u\<bar> * \<bar>u\<bar>" using u0 by simp
    also have "\<dots> = \<bar>(r - x / u) * u\<bar>" by (simp add: abs_mult)
    also have "(r - x / u) * u = r * u - x" using u0 by (simp add: field_simps)
    finally show ?thesis .
  qed
  ultimately have e1: "\<bar>to_double x - x\<bar> \<le> u / 2" unfolding td by simp
  have "u * 2 ^ 52 \<le> x" unfolding u52 using exponent2_bounds(1)[OF x0] .
  then have "u \<le> x / 2 ^ 52" by (simp add: field_simps)
  then have "u / 2 \<le> x / 2 ^ 53" by simp
  with e1 show ?thesis by linarith
qed

lemma to_double_range:
  assumes "0 < x"
  shows "2 powi (exponent2 x) \<le> to_double x" and "to_double x \<le> 2 powi (exponent2 x + 1)"
proof -
  define u where "u = (2::rat) powi (exponent2 x - 52)"
  have u0: "0 < u" and u52: "u * 2 ^ 52 = 2 powi (exponent2 x)"
    and u53: "u * 2 ^ 53 = 2 powi (exponent2 x + 1)"
    using ulp_facts[of "exponent2 x"] by (simp_all add: u_def)
  have td: "to_double x = of_int (round_half_even (x / u)) * u"
    using to_double_pos[OF assms] by (simp add: u_def)
  have "u * 2 ^ 52 \<le> x" unfolding u52 using exponent2_bounds(1)[OF assms] .
  then have lo: "of_int (2 ^ 52) \<le> x / u" using u0 by (simp add: field_simps)
  have "x < u * 2 ^ 53" unfolding u53 using exponent2_bounds(2)[OF assms] .
  then have hi: "x / u \<le> of_int (2 ^ 53)" using u0 by (simp add: field_simps)
  have "round_half_even (of_int (2 ^ 52)) \<le> round_half_even (x / u)"
    using lo by (rule rhe_mono)
  then have "(2::int) ^ 52 \<le> round_half_even (x / u)" by (simp only: rhe_of_int)
  then have "of_int (2 ^ 52) \<le> (of_int (round_half_even (x / u)) :: rat)"
    by (simp only: of_int_le_iff)
  then have "of_int (2 ^ 52) * u \<le> of_int (round_half_even (x / u)) * u"
    using u0 by (intro mult_right_mono) simp_all
  then show "2 powi (exponent2 x) \<le> to_double x"
    unfolding td u52[symmetric] by (simp add: mult.commute)
  have "round_half_even (x / u) \<le> round_half_even (of_int (2 ^ 53))"
    using hi by (rule rhe_mono)
  then have "round_half_even (x / u) \<le> (2::int) ^ 53" by (simp only: rhe_of_int)
  then have "(of_int (round_half_even (x / u)) :: rat) \<le> of_int (2 ^ 53)"
    by (simp only: of_int_le_iff)
  then have "of_int (round_half_even (x / u)) * u \<le> of_int (2 ^ 53) * u"
    using u0 by (intro mult_right_mono) simp_all
  then show "to_double x \<le> 2 powi (exponent2 x + 1)"
    unfolding td u53[symmetric] by (simp add: mult.commute)
qed

lemma to_double_mono:
  assumes "0 \<le> x" "x \<le> y"
  shows "to_double x \<le> to_double y"
proof (cases "x = 0")
  case True
  show ?thesis
  proof (cases "y = 0")
    case True
    with \<open>x = 0\<close> show ?thesis by simp
  next
    case False
    then have "0 < y" using assms True by simp
    from to_double_range(1)[OF this] have "0 < to_double y"
      by (rule less_le_trans[rotated]) simp
    then show ?thesis using True by (simp add: to_double_def)
  qed
next
  case False
  then have x0: "0 < x" using assms by simp
  then have y0: "0 < y" using assms by simp
  have "2 powi (exponent2 x) \<le> x" using exponent2_bounds(1)[OF x0] .
  also have "x \<le> y" by fact
  also have "y < 2 powi (exponent2 y + 1)" using exponent2_bounds(2)[OF y0] .
  finally have lt: "(2::rat) powi (exponent2 x) < 2 powi (exponent2 y + 1)" .
  have "exponent2 x < exponent2 y + 1"
  proof (rule ccontr)
    assume "\<not> exponent2 x < exponent2 y + 1"
    then have "exponent2 y + 1 \<le> exponent2 x" by simp
    then have "(2::rat) powi (exponent2 y + 1) \<le> 2 powi (exponent2 x)"
      by (intro power_int_increasing) simp_all
    with lt show False by linarith
  qed
  then consider "exponent2 x = exponent2 y" | "exponent2 x + 1 \<le> exponent2 y" by linarith
  then show ?thesis
  proof cases
    case 1
    define u where "u = (2::rat) powi (exponent2 x - 52)"
    have u0: "0 < u" by (simp add: u_def)
    have "x / u \<le> y / u" using assms u0 by (simp add: divide_right_mono)
    then have "round_half_even (x / u) \<le> round_half_even (y / u)" by (rule rhe_mono)
    then have "(of_int (round_half_even (x / u)) :: rat) \<le> of_int (round_half_even (y / u))"
      by (simp only: of_int_le_iff)
    then have "of_int (round_half_even (x / u)) * u \<le> of_int (round_half_even (y / u)) * u"
      using u0 by (intro mult_right_mono) simp_all
    then show ?thesis
      unfolding to_double_pos[OF x0] to_double_pos[OF y0] 1[symmetric] u_def .
  next
    case 2
    have "to_double x \<le> 2 powi (exponent2 x + 1)" using to_double_range(2)[OF x0] .
    also have "\<dots> \<le> 2 powi (exponent2 y)" using 2 by (intro power_int_increasing) simp_all
    also have "\<dots> \<le> to_double y" using to_double_range(1)[OF y0] .
    finally show ?thesis .
  qed
qed

section \<open>Percentages in binary64\<close>

lemma to_double_lower:
  assumes "0 \<le> x"
  shows "x - x / 2 ^ 53 \<le> to_double x"
proof -
  have "- (to_double x - x) \<le> x / 2 ^ 53"
    using to_double_error[OF assms] by (simp only: abs_le_iff)
  then show ?thesis by linarith
qed

lemma to_double_upper:
  assumes "0 \<le> x"
  shows "to_double x \<le> x + x / 2 ^ 53"
proof -
  have "to_double x - x \<le> x / 2 ^ 53"
    using to_double_error[OF assms] by (simp only: abs_le_iff)
  then show ?thesis by linarith
qed

lemma two_53: "(2::rat) ^ 53 = 9007199254740992"
  by simp

lemma to_double_nonneg:
  assumes "0 \<le> x"
  shows "0 \<le> to_double x"
proof -
  have "to_double 0 \<le> to_double x" using assms by (intro to_double_mono) simp_all
  then show ?thesis by (simp add: to_double_def)
qed

lemma to_double_positive:
  assumes "0 < x"
  shows "0 < to_double x"
proof -
  have "(0::rat) < 2 powi (exponent2 x)" by simp
  also have "\<dots> \<le> to_double x" using to_double_range(1)[OF assms] .
  finally show ?thesis .
qed

text \<open>The percentage \<^verbatim>\<open>(count / total) * 100\<close> as computed, between its exact bounds.\<close>

lemma percentage_lower:
  assumes "0 \<le> q"
  shows "100 * q - 100 * q * (2 / 2 ^ 53) \<le> to_double (to_double q * 100)"
proof -
  have a: "q - q / 2 ^ 53 \<le> to_double q" using to_double_lower[OF assms] .
  have n: "0 \<le> to_double q * 100" using to_double_nonneg[OF assms] by simp
  have b: "to_double q * 100 - to_double q * 100 / 2 ^ 53 \<le> to_double (to_double q * 100)"
    using to_double_lower[OF n] .
  have c: "to_double q \<le> q + q / 2 ^ 53" using to_double_upper[OF assms] .
  show ?thesis using a b c assms unfolding two_53 by linarith
qed

lemma percentage_upper:
  assumes "0 \<le> q"
  shows "to_double (to_double q * 100) \<le> 100 * q + 100 * q * (3 / 2 ^ 53)"
proof -
  have a: "to_double q \<le> q + q / 2 ^ 53" using to_double_upper[OF assms] .
  have n: "0 \<le> to_double q * 100" using to_double_nonneg[OF assms] by simp
  have b: "to_double (to_double q * 100) \<le> to_double q * 100 + to_double q * 100 / 2 ^ 53"
    using to_double_upper[OF n] .
  show ?thesis using a b assms unfolding two_53 by linarith
qed

lemma percentage_mono:
  assumes "0 \<le> p" and "p \<le> q"
  shows "to_double (to_double p * 100) \<le> to_double (to_double q * 100)"
proof -
  have "to_double p \<le> to_double q" using assms by (rule to_double_mono)
  then have "to_double p * 100 \<le> to_double q * 100" by simp
  moreover have "0 \<le> to_double p * 100" using to_double_nonneg[OF assms(1)] by simp
  ultimately show ?thesis by (rule to_double_mono[rotated])
qed

section \<open>The fire heuristic against one percent\<close>

lemma detectFire_exact:
  assumes "well_formed img" and "0 < width img * height img"
  shows "detectFire img \<longleftrightarrow>
         1 < to_double (to_double (of_nat (fireCount img) / of_nat (width img * height img)) * 100)"
proof -
  have len: "length (data img) = 4 * (width img * height img)"
    using assms(1) by (simp add: well_formed_def)
  have "detectFire_loop (data img) (4 * 0) 0 =
        0 + length (filter (fireColoured (data img)) [0..<width img * height img])"
    using len by (rule detectFire_loop_count) simp
  then have loop: "detectFire_loop (data img) 0 0 = fireCount img"
    by (simp add: fireCount_def)
  have nz: "(of_nat (width img * height img) :: rat) \<noteq> 0"
    using assms(2) by simp
  show ?thesis
    unfolding detectFire_def Let_def loop js_div_def using nz by simp
qed

lemma detectFire_no_pixels:
  assumes "well_formed img" and "width img * height img = 0"
  shows "\<not> detectFire img"
proof -
  have "data img = []" using assms by (simp add: well_formed_def)
  then have "detectFire_loop (data img) 0 0 = 0"
    by (subst detectFire_loop.simps) simp
  then show ?thesis
    unfolding detectFire_def Let_def js_div_def using assms(2) by simp
qed

lemma one_percent_rounds_to_one: "to_double (to_double (1 / 100) * 100) = 1"
  by code_simp

lemma fire_at_most_one_percent:
  fixes d t :: nat
  assumes "0 < t" and "100 * d \<le> t"
  shows "\<not> 1 < to_double (to_double (of_nat d / of_nat t) * 100)"
proof -
  have "(of_nat (100 * d) :: rat) \<le> of_nat t" using assms(2) by (simp only: of_nat_le_iff)
  then have "(of_nat d :: rat) / of_nat t \<le> 1 / 100"
    using assms(1) by (simp add: field_simps)
  moreover have "(0::rat) \<le> of_nat d / of_nat t" by simp
  ultimately have "to_double (to_double (of_nat d / of_nat t) * 100)
                   \<le> to_double (to_double (1 / 100) * 100)"
    by (rule percentage_mono[rotated])
  then show ?thesis unfolding one_percent_rounds_to_one by simp
qed

lemma fire_above_one_percent:
  fixes d t :: nat
  assumes "0 < t" and "t < 2 ^ 50" and "t < 100 * d"
  shows "1 < to_double (to_double (of_nat d / of_nat t) * 100)"
proof -
  define q :: rat where "q = of_nat d / of_nat t"
  have q0: "0 \<le> q" by (simp add: q_def)
  have "t + 1 \<le> 100 * d" using assms(3) by simp
  then have "(of_nat (t + 1) :: rat) \<le> of_nat (100 * d)" by (simp only: of_nat_le_iff)
  then have "(of_nat t + 1 :: rat) \<le> 100 * of_nat d" by simp
  then have "(of_nat t + 1) / of_nat t \<le> (100 * of_nat d) / (of_nat t :: rat)"
    by (rule divide_right_mono) simp
  then have "(of_nat t + 1) / of_nat t \<le> 100 * q"
    by (simp add: q_def)
  moreover have "(of_nat t + 1) / (of_nat t :: rat) = 1 + 1 / of_nat t"
    using assms(1) by (simp add: field_simps)
  ultimately have a: "1 + 1 / of_nat t \<le> 100 * q" by simp
  have "t \<le> 2 ^ 50" using assms(2) by simp
  then have "(of_nat t :: rat) \<le> of_nat (2 ^ 50)" by (simp only: of_nat_le_iff)
  then have "(of_nat t :: rat) \<le> 2 ^ 50" by simp
  then have b: "1 / 2 ^ 50 \<le> 1 / (of_nat t :: rat)"
    using assms(1) by (intro frac_le) simp_all
  have c: "100 * q - 100 * q * (2 / 2 ^ 53) \<le> to_double (to_double q * 100)"
    using percentage_lower[OF q0] .
  have two_50: "(2::rat) ^ 50 = 1125899906842624" by simp
  show ?thesis
    using a b c unfolding q_def[symmetric] two_53 two_50 by linarith
qed

lemma uniform_no_fire:
  assumes "uniformColour v img" and "v = 0 \<or> v = 255"
  shows "fireCount img = 0"
proof -
  have "\<not> fireColoured (data img) k" if "k < width img * height img" for k
  proof -
    have "data img ! (4 * k) = v \<and> data img ! (4 * k + 1) = v"
      using assms(1) that by (simp add: uniformColour_def list_all_iff)
    then show ?thesis using assms(2) by (auto simp: fireColoured_def)
  qed
  then show ?thesis by (simp add: fireCount_def filter_empty_conv)
qed

text \<open>
  Claim C2, as amended. On a buffer holding four bytes for each of its
  \<open>width * height < 2 ^ 50\<close> pixels, \<^verbatim>\<open>detectFire\<close> returns true exactly when the
  fire-coloured pixels are more than one percent of all pixels. So a buffer with exactly
  one percent gives false, and so do a buffer that is black throughout, one that is white
  throughout, and one with no pixels.
\<close>

theorem detectFire_more_than_one_percent:
  assumes "well_formed img" and "width img * height img < 2 ^ 50"
  shows "(detectFire img \<longleftrightarrow> width img * height img < 100 * fireCount img)
         \<and> (uniformColour 0 img \<longrightarrow> \<not> detectFire img)
         \<and> (uniformColour 255 img \<longrightarrow> \<not> detectFire img)
         \<and> (data img = [] \<longrightarrow> \<not> detectFire img)"
proof -
  have main: "detectFire img \<longleftrightarrow> width img * height img < 100 * fireCount img"
  proof (cases "width img * height img = 0")
    case True
    then have "fireCount img = 0" by (simp add: fireCount_def)
    with True detectFire_no_pixels[OF assms(1) True] show ?thesis by simp
  next
    case False
    then have t0: "0 < width img * height img" by simp
    show ?thesis
      unfolding detectFire_exact[OF assms(1) t0]
      using fire_at_most_one_percent[OF t0, of "fireCount img"]
        fire_above_one_percent[OF t0 assms(2), of "fireCount img"]
      by (cases "width img * height img < 100 * fireCount img") simp_all
  qed
  have empty: "data img = [] \<longrightarrow> \<not> detectFire img"
  proof
    assume "data img = []"
    then have "width img * height img = 0" using assms(1) by (simp add: well_formed_def)
    then show "\<not> detectFire img" by (rule detectFire_no_pixels[OF assms(1)])
  qed
  show ?thesis
    using main empty uniform_no_fire[of 0 img] uniform_no_fire[of 255 img] by auto
qed

theorem detectFire_more_than_one_percent_witness:
  "well_formed twoOfHundred \<and> fireCount twoOfHundred = 2 \<and> detectFire twoOfHundred
   \<and> uniformColour 0 blackPixel \<and> \<not> detectFire blackPixel
   \<and> uniformColour 255 whitePixel \<and> \<not> detectFire whitePixel
   \<and> data emptyBuffer = [] \<and> \<not> detectFire emptyBuffer"
proof -
  have w: "well_formed twoOfHundred" "well_formed blackPixel" "well_formed whitePixel"
    "well_formed emptyBuffer"
    by (simp_all add: well_formed_def twoOfHundred_def blackPixel_def whitePixel_def
        emptyBuffer_def fireFrame_def)
  have b: "width twoOfHundred * height twoOfHundred < 2 ^ 50"
    "width blackPixel * height blackPixel < 2 ^ 50"
    "width whitePixel * height whitePixel < 2 ^ 50"
    "width emptyBuffer * height emptyBuffer < 2 ^ 50"
    by (simp_all add: twoOfHundred_def blackPixel_def whitePixel_def emptyBuffer_def)
  have c: "fireCount twoOfHundred = 2" by code_simp
  have u: "uniformColour 0 blackPixel" "uniformColour 255 whitePixel" "data emptyBuffer = []"
    by (simp_all add: uniformColour_def blackPixel_def whitePixel_def emptyBuffer_def)
  have t: "width twoOfHundred * height twoOfHundred = 100" by (simp add: twoOfHundred_def)
  have fire: "detectFire twoOfHundred"
    using detectFire_more_than_one_percent[OF w(1) b(1)] c t by simp
  have black: "\<not> detectFire blackPixel"
    using detectFire_more_than_one_percent[OF w(2) b(2)] u(1) by blast
  have white: "\<not> detectFire whitePixel"
    using detectFire_more_than_one_percent[OF w(3) b(3)] u(2) by blast
  have empty: "\<not> detectFire emptyBuffer"
    using detectFire_more_than_one_percent[OF w(4) b(4)] u(3) by blast
  from w(1) c u fire black white empty show ?thesis by blast
qed

text \<open>
  At exactly one percent the percentage computed is 1, which is not greater than 1:
  the heuristic answers false where at least one percent of the pixels are fire-coloured.
\<close>

theorem exactly_one_percent_counterexample:
  "well_formed onePercent
   \<and> width onePercent * height onePercent \<le> 100 * fireCount onePercent
   \<and> \<not> detectFire onePercent"
  by code_simp

section \<open>The motion heuristic against its threshold\<close>

lemma motionCheck_exact:
  assumes "well_formed cur" and "well_formed prev" and "sameDimensions cur prev"
    and "0 < width cur * height cur"
  shows "motionCheck cur prev (width cur) (height cur) sens \<longleftrightarrow>
         to_double (of_int (100 - sens) / 3)
         < to_double (to_double (of_nat (changedCount cur prev)
                                 / of_nat (width cur * height cur)) * 100)"
proof -
  have lc: "length (data cur) = 4 * (width cur * height cur)"
    using assms(1) by (simp add: well_formed_def)
  have lp: "length (data prev) = 4 * (width cur * height cur)"
    using assms(2,3) by (simp add: well_formed_def sameDimensions_def)
  have "diff_loop (data cur) (data prev) (4 * 0) 0 =
        0 + length (filter (\<lambda>k. 100 < channelDiff (data cur) (data prev) k)
                           [0..<width cur * height cur])"
    using lc lp by (rule diff_loop_count) simp
  then have loop: "diff_loop (data cur) (data prev) 0 0 = changedCount cur prev"
    by (simp add: changedCount_def)
  have nz: "(of_nat (width cur * height cur) :: rat) \<noteq> 0"
    using assms(4) by simp
  show ?thesis
    unfolding motionCheck_def Let_def loop js_div_def using nz by simp
qed

lemma two_40: "(2::rat) ^ 40 = 1099511627776"
  by simp

lemma small_total:
  fixes t :: nat
  assumes "0 < t" and "t < 2 ^ 40"
  shows "1 / (3 * 2 ^ 40) \<le> 1 / (3 * of_nat t :: rat)"
proof -
  have "t \<le> 2 ^ 40" using assms(2) by simp
  then have "(of_nat t :: rat) \<le> of_nat (2 ^ 40)" by (simp only: of_nat_le_iff)
  then have "3 * (of_nat t :: rat) \<le> 3 * 2 ^ 40" by simp
  then show ?thesis using assms(1) by (intro frac_le) simp_all
qed

lemma motion_above_threshold:
  fixes d t :: nat and c :: int
  assumes "0 < t" and "t < 2 ^ 40" and "0 \<le> c" and "c \<le> 100"
    and "c * int t < 300 * int d"
  shows "to_double (of_int c / 3) < to_double (to_double (of_nat d / of_nat t) * 100)"
proof -
  define q :: rat where "q = of_nat d / of_nat t"
  define A :: rat where "A = of_int c / 3"
  define B :: rat where "B = 1 / (3 * of_nat t)"
  have q0: "0 \<le> q" by (simp add: q_def)
  have A0: "0 \<le> A" using assms(3) by (simp add: A_def)
  have A1: "A \<le> 100 / 3" using assms(4) by (simp add: A_def)
  have "c * int t + 1 \<le> 300 * int d" using assms(5) by simp
  then have "(of_int (c * int t + 1) :: rat) \<le> of_int (300 * int d)"
    by (simp only: of_int_le_iff)
  then have "(of_int c * of_nat t + 1 :: rat) \<le> 300 * of_nat d" by simp
  then have "(of_int c * of_nat t + 1) / (3 * of_nat t) \<le> (300 * of_nat d) / (3 * of_nat t :: rat)"
    by (rule divide_right_mono) simp
  moreover have "(of_int c * of_nat t + 1) / (3 * of_nat t :: rat) = A + B"
    using assms(1) by (simp add: A_def B_def add_divide_distrib)
  moreover have "(300 * of_nat d) / (3 * of_nat t :: rat) = 100 * q"
    by (simp add: q_def)
  ultimately have a: "A + B \<le> 100 * q" by simp
  have b: "1 / (3 * 2 ^ 40) \<le> B" unfolding B_def using small_total[OF assms(1,2)] .
  have lo: "100 * q - 100 * q * (2 / 2 ^ 53) \<le> to_double (to_double q * 100)"
    using percentage_lower[OF q0] .
  have up: "to_double A \<le> A + A / 2 ^ 53" using to_double_upper[OF A0] .
  have "to_double A < to_double (to_double q * 100)"
    using a b lo up A0 A1 unfolding two_53 two_40 by linarith
  then show ?thesis by (simp add: A_def q_def)
qed

lemma motion_below_threshold:
  fixes d t :: nat and c :: int
  assumes "0 < t" and "t < 2 ^ 40" and "0 \<le> c" and "c \<le> 100"
    and "300 * int d < c * int t"
  shows "\<not> to_double (of_int c / 3) < to_double (to_double (of_nat d / of_nat t) * 100)"
proof -
  define q :: rat where "q = of_nat d / of_nat t"
  define A :: rat where "A = of_int c / 3"
  define B :: rat where "B = 1 / (3 * of_nat t)"
  have q0: "0 \<le> q" by (simp add: q_def)
  have A0: "0 \<le> A" using assms(3) by (simp add: A_def)
  have A1: "A \<le> 100 / 3" using assms(4) by (simp add: A_def)
  have "300 * int d + 1 \<le> c * int t" using assms(5) by simp
  then have "(of_int (300 * int d + 1) :: rat) \<le> of_int (c * int t)"
    by (simp only: of_int_le_iff)
  then have "(300 * of_nat d + 1 :: rat) \<le> of_int c * of_nat t" by simp
  then have "(300 * of_nat d + 1) / (3 * of_nat t) \<le> (of_int c * of_nat t) / (3 * of_nat t :: rat)"
    by (rule divide_right_mono) simp
  moreover have "(300 * of_nat d + 1) / (3 * of_nat t :: rat) = 100 * q + B"
    by (simp add: q_def B_def add_divide_distrib)
  moreover have "(of_int c * of_nat t) / (3 * of_nat t :: rat) = A"
    using assms(1) by (simp add: A_def)
  ultimately have a: "100 * q + B \<le> A" by simp
  have b: "1 / (3 * 2 ^ 40) \<le> B" unfolding B_def using small_total[OF assms(1,2)] .
  have up: "to_double (to_double q * 100) \<le> 100 * q + 100 * q * (3 / 2 ^ 53)"
    using percentage_upper[OF q0] .
  have lo: "A - A / 2 ^ 53 \<le> to_double A" using to_double_lower[OF A0] .
  have "to_double (to_double q * 100) \<le> to_double A"
    using a b lo up A0 A1 q0 unfolding two_53 two_40 by linarith
  then show ?thesis by (simp add: A_def q_def)
qed

lemma percentage_against_threshold:
  assumes "0 < width cur * height cur"
  shows "motionThreshold sens < changedPercentage cur prev \<longleftrightarrow>
           (100 - sens) * int (width cur * height cur) < 300 * int (changedCount cur prev)"
    and "changedPercentage cur prev < motionThreshold sens \<longleftrightarrow>
           300 * int (changedCount cur prev) < (100 - sens) * int (width cur * height cur)"
proof -
  define t where "t = width cur * height cur"
  define d where "d = changedCount cur prev"
  have t0: "(0::rat) < of_nat t" using assms by (simp add: t_def)
  have "motionThreshold sens < changedPercentage cur prev \<longleftrightarrow>
        (of_int (100 - sens) :: rat) * of_nat t < 300 * of_nat d"
    unfolding motionThreshold_def changedPercentage_def t_def[symmetric] d_def[symmetric]
    using t0 by (simp add: field_simps)
  also have "\<dots> \<longleftrightarrow> (of_int ((100 - sens) * int t) :: rat) < of_int (300 * int d)"
    by simp
  also have "\<dots> \<longleftrightarrow> (100 - sens) * int t < 300 * int d"
    by (simp only: of_int_less_iff)
  finally show "motionThreshold sens < changedPercentage cur prev \<longleftrightarrow>
           (100 - sens) * int (width cur * height cur) < 300 * int (changedCount cur prev)"
    by (simp add: t_def d_def)
  have "changedPercentage cur prev < motionThreshold sens \<longleftrightarrow>
        300 * of_nat d < (of_int (100 - sens) :: rat) * of_nat t"
    unfolding motionThreshold_def changedPercentage_def t_def[symmetric] d_def[symmetric]
    using t0 by (simp add: field_simps)
  also have "\<dots> \<longleftrightarrow> (of_int (300 * int d) :: rat) < of_int ((100 - sens) * int t)"
    by simp
  also have "\<dots> \<longleftrightarrow> 300 * int d < (100 - sens) * int t"
    by (simp only: of_int_less_iff)
  finally show "changedPercentage cur prev < motionThreshold sens \<longleftrightarrow>
           300 * int (changedCount cur prev) < (100 - sens) * int (width cur * height cur)"
    by (simp add: t_def d_def)
qed

text \<open>
  Claim C1, as amended. For a current and a previous buffer of the same dimensions, each
  holding four bytes for each of its \<open>width * height\<close> pixels, fewer than \<open>2 ^ 40\<close> of
  them, and a sensitivity from 0 to 100: the motion heuristic answers true when the
  percentage of pixels whose channel difference exceeds 100 is greater than
  \<open>(100 - sensitivity) / 3\<close>, and false when it is smaller. When the two are equal the
  answer is that of the comparison in binary64.
\<close>

theorem motionCheck_threshold:
  assumes "well_formed cur" and "well_formed prev" and "sameDimensions cur prev"
    and "0 < width cur * height cur" and "width cur * height cur < 2 ^ 40"
    and "0 \<le> sens" and "sens \<le> 100"
  shows "(motionThreshold sens < changedPercentage cur prev \<longrightarrow>
            motionCheck cur prev (width cur) (height cur) sens)
         \<and> (changedPercentage cur prev < motionThreshold sens \<longrightarrow>
            \<not> motionCheck cur prev (width cur) (height cur) sens)"
proof -
  have c: "0 \<le> 100 - sens" "100 - sens \<le> 100" using assms(6,7) by simp_all
  show ?thesis
    unfolding motionCheck_exact[OF assms(1-4)] percentage_against_threshold[OF assms(4)]
    using motion_above_threshold[OF assms(4,5) c, of "changedCount cur prev"]
      motion_below_threshold[OF assms(4,5) c, of "changedCount cur prev"]
    by blast
qed

theorem motionCheck_threshold_witness:
  "motionThreshold 30 < changedPercentage sevenChanged blackFive
   \<and> motionCheck sevenChanged blackFive 5 5 30
   \<and> changedPercentage sevenChanged blackFive < motionThreshold 0
   \<and> \<not> motionCheck sevenChanged blackFive 5 5 0"
proof -
  have w: "well_formed sevenChanged" "well_formed blackFive"
    "sameDimensions sevenChanged blackFive"
    by (simp_all add: well_formed_def sameDimensions_def sevenChanged_def blackFive_def)
  have t: "0 < width sevenChanged * height sevenChanged"
    "width sevenChanged * height sevenChanged < 2 ^ 40"
    by (simp_all add: sevenChanged_def)
  have wh: "width sevenChanged = 5" "height sevenChanged = 5" by (simp_all add: sevenChanged_def)
  have above: "motionThreshold 30 < changedPercentage sevenChanged blackFive" by code_simp
  have below: "changedPercentage sevenChanged blackFive < motionThreshold 0" by code_simp
  have "motionCheck sevenChanged blackFive 5 5 30"
    using motionCheck_threshold[OF w t, of 30] above by (simp add: wh)
  moreover have "\<not> motionCheck sevenChanged blackFive 5 5 0"
    using motionCheck_threshold[OF w t, of 0] below by (simp add: wh)
  ultimately show ?thesis using above below by blast
qed

text \<open>
  Seven changed pixels of twenty-five are 28 percent, and at sensitivity 16 the threshold
  is 28: the percentage is not greater than the threshold. The code computes
  \<^verbatim>\<open>(7 / 25) * 100\<close>, which in binary64 is 28.000000000000004, and answers true.
\<close>

theorem rounded_percentage_counterexample:
  "well_formed sevenChanged \<and> well_formed blackFive \<and> sameDimensions sevenChanged blackFive
   \<and> changedCount sevenChanged blackFive = 7
   \<and> changedPercentage sevenChanged blackFive = motionThreshold 16
   \<and> motionCheck sevenChanged blackFive 5 5 16"
  by code_simp

text \<open>
  Claim C3, as amended. For two buffers of the same dimensions: at sensitivity 100 the
  threshold is 0 and the heuristic answers true exactly when at least one pixel's channel
  difference exceeds 100; at sensitivity 0 it answers true only when more than a third of
  the pixels changed.
\<close>

theorem motionCheck_extreme_sensitivities:
  assumes "well_formed cur" and "well_formed prev" and "sameDimensions cur prev"
    and "0 < width cur * height cur"
  shows "(motionCheck cur prev (width cur) (height cur) 100 \<longleftrightarrow> 0 < changedCount cur prev)
         \<and> (motionCheck cur prev (width cur) (height cur) 0 \<longrightarrow>
              width cur * height cur < 3 * changedCount cur prev)"
proof -
  define t where "t = width cur * height cur"
  define d where "d = changedCount cur prev"
  define q :: rat where "q = of_nat d / of_nat t"
  have t0: "0 < t" using assms(4) by (simp add: t_def)
  have q0: "0 \<le> q" by (simp add: q_def)
  have full: "motionCheck cur prev (width cur) (height cur) 100 \<longleftrightarrow> 0 < d"
  proof (cases "d = 0")
    case True
    then show ?thesis
      unfolding motionCheck_exact[OF assms] d_def[symmetric] by (simp add: to_double_def)
  next
    case False
    then have "0 < q" using t0 by (simp add: q_def)
    then have "0 < to_double q * 100" using to_double_positive by simp
    then have "0 < to_double (to_double q * 100)" by (rule to_double_positive)
    then show ?thesis
      unfolding motionCheck_exact[OF assms] d_def[symmetric] t_def[symmetric] q_def[symmetric]
      using False by (simp add: to_double_def)
  qed
  have third: "to_double (to_double (1 / 3) * 100) \<le> to_double (100 / 3)"
    by code_simp
  have none: "t < 3 * d" if m: "motionCheck cur prev (width cur) (height cur) 0"
  proof (rule ccontr)
    assume "\<not> t < 3 * d"
    then have "3 * d \<le> t" by simp
    then have "(of_nat (3 * d) :: rat) \<le> of_nat t" by (simp only: of_nat_le_iff)
    then have "q \<le> 1 / 3" using t0 by (simp add: q_def field_simps)
    with q0 have "to_double (to_double q * 100) \<le> to_double (to_double (1 / 3) * 100)"
      by (rule percentage_mono)
    with third have "to_double (to_double q * 100) \<le> to_double (100 / 3)" by linarith
    moreover have "to_double (100 / 3) < to_double (to_double q * 100)"
      using m unfolding motionCheck_exact[OF assms] d_def[symmetric] t_def[symmetric]
        q_def[symmetric] by simp
    ultimately show False by linarith
  qed
  show ?thesis using full none unfolding t_def d_def by blast
qed

theorem motionCheck_extreme_sensitivities_witness:
  "0 < changedCount whitePixel blackPixel
   \<and> motionCheck whitePixel blackPixel 1 1 100
   \<and> motionCheck whitePixel blackPixel 1 1 0
   \<and> width whitePixel * height whitePixel < 3 * changedCount whitePixel blackPixel"
proof -
  have w: "well_formed whitePixel" "well_formed blackPixel" "sameDimensions whitePixel blackPixel"
    "0 < width whitePixel * height whitePixel"
    by (simp_all add: well_formed_def sameDimensions_def whitePixel_def blackPixel_def)
  have wh: "width whitePixel = 1" "height whitePixel = 1" by (simp_all add: whitePixel_def)
  have c: "0 < changedCount whitePixel blackPixel" by code_simp
  have m0: "motionCheck whitePixel blackPixel 1 1 0" by code_simp
  have "motionCheck whitePixel blackPixel 1 1 100"
    using motionCheck_extreme_sensitivities[OF w] c by (simp add: wh)
  moreover have "width whitePixel * height whitePixel < 3 * changedCount whitePixel blackPixel"
    using motionCheck_extreme_sensitivities[OF w] m0 by (simp add: wh)
  ultimately show ?thesis using c m0 by blast
qed

text \<open>
  A pixel whose red differs by 1 from the previous frame's is a nonzero difference, and at
  sensitivity 100 the heuristic still answers false: only differences above 100 count.
\<close>

theorem faint_difference_counterexample:
  "well_formed faintPixel \<and> well_formed blackPixel \<and> sameDimensions faintPixel blackPixel
   \<and> channelDiff (data faintPixel) (data blackPixel) 0 = 1
   \<and> \<not> motionCheck faintPixel blackPixel 1 1 100"
  by code_simp

section \<open>What each operation leaves alone\<close>

lemma startAlarm_fields [simp]:
  "capturedFrames (startAlarm ct s) = capturedFrames s"
  "lastCaptureTimeRef (startAlarm ct s) = lastCaptureTimeRef s"
  "previousFrameRef (startAlarm ct s) = previousFrameRef s"
  "detection (startAlarm ct s) = detection s"
  "sensitivity (startAlarm ct s) = sensitivity s"
  by (simp_all add: startAlarm_def Let_def)

lemma stopAlarm_fields [simp]:
  "capturedFrames (stopAlarm s) = capturedFrames s"
  "lastCaptureTimeRef (stopAlarm s) = lastCaptureTimeRef s"
  "previousFrameRef (stopAlarm s) = previousFrameRef s"
  "detection (stopAlarm s) = detection s"
  "sensitivity (stopAlarm s) = sensitivity s"
  by (simp_all add: stopAlarm_def)

lemma updateFire_fields [simp]:
  "capturedFrames (updateFire ct fire s) = capturedFrames s"
  "lastCaptureTimeRef (updateFire ct fire s) = lastCaptureTimeRef s"
  "previousFrameRef (updateFire ct fire s) = previousFrameRef s"
  "sensitivity (updateFire ct fire s) = sensitivity s"
  "detection (updateFire ct fire s) = (detection s)\<lparr>fireDetected := fire\<rparr>"
  by (simp_all add: updateFire_def Let_def)

lemma stopCamera_fields [simp]:
  "capturedFrames (stopCamera s) = capturedFrames s"
  "lastCaptureTimeRef (stopCamera s) = lastCaptureTimeRef s"
  "previousFrameRef (stopCamera s) = previousFrameRef s"
  by (simp_all add: stopCamera_def Let_def)

lemma startCamera_fields [simp]:
  "capturedFrames (startCamera g p s) = capturedFrames s"
  "lastCaptureTimeRef (startCamera g p s) = lastCaptureTimeRef s"
  "previousFrameRef (startCamera g p s) = previousFrameRef s"
  "detection (startCamera g p s) = detection s"
  by (simp_all add: startCamera_def)

lemma onloadedmetadata_fields [simp]:
  "capturedFrames (onloadedmetadata s) = capturedFrames s"
  "lastCaptureTimeRef (onloadedmetadata s) = lastCaptureTimeRef s"
  "previousFrameRef (onloadedmetadata s) = previousFrameRef s"
  by (simp_all add: onloadedmetadata_def)

lemma toggleDetection_lastCapture [simp]:
  "lastCaptureTimeRef (toggleDetection g p s) = lastCaptureTimeRef s"
  by (simp add: toggleDetection_def)

lemma toggleDetection_frames:
  "capturedFrames (toggleDetection g p s) = capturedFrames s \<or>
   capturedFrames (toggleDetection g p s) = []"
  by (simp add: toggleDetection_def)

text \<open>What a tick does to the capture store and to the cooldown stamp.\<close>

lemma captureIfDue_cases:
  "(capturedFrames (captureIfDue env m f s) = capturedFrames s \<and>
    lastCaptureTimeRef (captureIfDue env m f s) = lastCaptureTimeRef s) \<or>
   (capturedFrames (captureIfDue env m f s) =
      capturedFrames s @ [\<lparr>dataUrl = dataURL env, timestamp = now2 env\<rparr>] \<and>
    lastCaptureTimeRef (captureIfDue env m f s) = now3 env \<and>
    CAPTURE_COOLDOWN < now1 env - lastCaptureTimeRef s)"
  by (auto simp: captureIfDue_def captureFrame_def split: option.splits)

lemma detectMotion_cases:
  "(capturedFrames (detectMotion env s) = capturedFrames s \<and>
    lastCaptureTimeRef (detectMotion env s) = lastCaptureTimeRef s) \<or>
   (capturedFrames (detectMotion env s) =
      capturedFrames s @ [\<lparr>dataUrl = dataURL env, timestamp = now2 env\<rparr>] \<and>
    lastCaptureTimeRef (detectMotion env s) = now3 env \<and>
    CAPTURE_COOLDOWN < now1 env - lastCaptureTimeRef s)"
proof (cases "previousFrameRef s")
  case None
  then show ?thesis by (simp add: detectMotion_def Let_def)
next
  case (Some prev)
  show ?thesis
  proof (cases "\<not> videoPresent env \<or> \<not> canvasPresent env \<or> videoWidth env = 0 \<or>
                 videoHeight env = 0 \<or> \<not> contextAvailable env")
    case True
    then show ?thesis by (auto simp: detectMotion_def)
  next
    case False
    define cur where
      "cur = \<lparr>width = videoWidth env, height = videoHeight env, data = frameData env\<rparr>"
    define s1 where "s1 = updateFire (audioTime env) (detectFire cur) s"
    define m where
      "m = motionCheck cur prev (videoWidth env) (videoHeight env) (tickSensitivity s1)"
    define s' where "s' = s1\<lparr>detection := (detection s1)\<lparr>motionDetected := m\<rparr>\<rparr>"
    have eq: "detectMotion env s =
              (captureIfDue env m (detectFire cur) s')\<lparr>previousFrameRef := Some cur\<rparr>"
      using False Some by (simp add: detectMotion_def Let_def cur_def s1_def m_def s'_def)
    have f: "capturedFrames s' = capturedFrames s" "lastCaptureTimeRef s' = lastCaptureTimeRef s"
      by (simp_all add: s'_def s1_def)
    show ?thesis
      using captureIfDue_cases[of env m "detectFire cur" s'] unfolding eq f by simp
  qed
qed

section \<open>Timelapse precondition\<close>

text \<open>
  Claim C7. With fewer than two captured frames \<^verbatim>\<open>createTimelapse\<close> sets the error message
  shown to the user and does nothing else: no canvas, no recorder, no frame drawn, no
  download.
\<close>

theorem createTimelapse_too_few_frames:
  assumes "length (capturedFrames s) < 2"
  shows "createTimelapse env s =
           (s\<lparr>error := ''Not enough frames captured for timelapse''\<rparr>, noAssembly)
         \<and> downloads (snd (createTimelapse env s)) = []
         \<and> \<not> recorderStarted (snd (createTimelapse env s))
         \<and> drawn (snd (createTimelapse env s)) = []"
  using assms by (simp add: createTimelapse_def noAssembly_def)

theorem createTimelapse_too_few_frames_witness:
  "length (capturedFrames oneFrame) < 2
   \<and> createTimelapse oneBroken oneFrame =
       (oneFrame\<lparr>error := ''Not enough frames captured for timelapse''\<rparr>, noAssembly)
   \<and> downloads (snd (createTimelapse oneBroken oneFrame)) = []"
proof -
  have h: "length (capturedFrames oneFrame) < 2"
    by (simp add: oneFrame_def initialState_def)
  from createTimelapse_too_few_frames[OF h, of oneBroken] h show ?thesis by blast
qed

section \<open>The tick without a previous frame\<close>

text \<open>
  Claim C4, as amended. When no previous frame is retained, the tick compares nothing:
  \<^verbatim>\<open>motionDetected\<close> keeps its value, nothing is captured and the cooldown stamp stays.
  The dimensions of the two frames are not compared anywhere.
\<close>

theorem no_previous_frame_no_motion_check:
  assumes "previousFrameRef s = None"
  shows "motionDetected (detection (detectMotion env s)) = motionDetected (detection s)
         \<and> capturedFrames (detectMotion env s) = capturedFrames s
         \<and> lastCaptureTimeRef (detectMotion env s) = lastCaptureTimeRef s"
  using assms by (simp add: detectMotion_def Let_def)

theorem no_previous_frame_no_motion_check_witness:
  "previousFrameRef initialState = None
   \<and> \<not> motionDetected (detection (detectMotion firstTick initialState))
   \<and> capturedFrames (detectMotion firstTick initialState) = []
   \<and> lastCaptureTimeRef (detectMotion firstTick initialState) = 0"
proof -
  have h: "previousFrameRef initialState = None" by (simp add: initialState_def)
  from no_previous_frame_no_motion_check[OF h, of firstTick] h show ?thesis
    by (simp add: initialState_def)
qed

text \<open>
  With a previous frame of other dimensions the comparison runs all the same, over the
  two byte arrays: here it reports motion and a frame is captured on its account.
\<close>

theorem dimension_mismatch_counterexample:
  "previousFrameRef tallPrevious = Some tallFrame
   \<and> \<not> sameDimensions
         \<lparr>width = videoWidth wideTick, height = videoHeight wideTick,
          data = frameData wideTick\<rparr> tallFrame
   \<and> motionDetected (detection (detectMotion wideTick tallPrevious))
   \<and> \<not> fireDetected (detection (detectMotion wideTick tallPrevious))
   \<and> capturedFrames (detectMotion wideTick tallPrevious) =
       [\<lparr>dataUrl = ''data:image/webp;base64,AA'', timestamp = 5002\<rparr>]"
  by code_simp

section \<open>Capture on a tick\<close>

text \<open>
  Claim C6, as amended. On a tick that samples a frame while a previous frame is
  retained, if motion or fire is detected and more than 1000 ms have passed since the
  cooldown stamp, the frame is appended to the capture store and the stamp is renewed.
\<close>

theorem capture_when_due:
  assumes "videoPresent env" and "canvasPresent env" and "contextAvailable env"
    and "0 < videoWidth env" and "0 < videoHeight env"
    and "dataURL env \<noteq> ''''"
    and "previousFrameRef s \<noteq> None"
    and "motionDetected (detection (detectMotion env s)) \<or>
         fireDetected (detection (detectMotion env s))"
    and "CAPTURE_COOLDOWN < now1 env - lastCaptureTimeRef s"
  shows "capturedFrames (detectMotion env s) =
           capturedFrames s @ [\<lparr>dataUrl = dataURL env, timestamp = now2 env\<rparr>]
         \<and> lastCaptureTimeRef (detectMotion env s) = now3 env"
proof -
  obtain prev where prev: "previousFrameRef s = Some prev" using assms(7) by auto
  define cur where
    "cur = \<lparr>width = videoWidth env, height = videoHeight env, data = frameData env\<rparr>"
  define s1 where "s1 = updateFire (audioTime env) (detectFire cur) s"
  define m where
    "m = motionCheck cur prev (videoWidth env) (videoHeight env) (tickSensitivity s1)"
  define s' where "s' = s1\<lparr>detection := (detection s1)\<lparr>motionDetected := m\<rparr>\<rparr>"
  have eq: "detectMotion env s =
            (captureIfDue env m (detectFire cur) s')\<lparr>previousFrameRef := Some cur\<rparr>"
    using assms(1-5) prev by (simp add: detectMotion_def Let_def cur_def s1_def m_def s'_def)
  have det: "detection (captureIfDue env m (detectFire cur) s') = detection s'"
    by (simp add: captureIfDue_def split: option.splits)
  have "detection (detectMotion env s) = detection s'"
    unfolding eq by (simp add: det)
  then have flags: "m \<or> detectFire cur"
    using assms(8) by (simp add: s'_def s1_def)
  have f: "capturedFrames s' = capturedFrames s" "lastCaptureTimeRef s' = lastCaptureTimeRef s"
    by (simp_all add: s'_def s1_def)
  have cf: "captureFrame env = Some (dataURL env)"
    using assms(1-5) by (simp add: captureFrame_def)
  show ?thesis
    unfolding eq using flags assms(6,9) by (simp add: captureIfDue_def cf f)
qed

theorem capture_when_due_witness:
  "previousFrameRef tallPrevious \<noteq> None
   \<and> motionDetected (detection (detectMotion wideTick tallPrevious))
   \<and> CAPTURE_COOLDOWN < now1 wideTick - lastCaptureTimeRef tallPrevious
   \<and> capturedFrames (detectMotion wideTick tallPrevious) =
       capturedFrames tallPrevious @ [\<lparr>dataUrl = dataURL wideTick, timestamp = now2 wideTick\<rparr>]
   \<and> lastCaptureTimeRef (detectMotion wideTick tallPrevious) = now3 wideTick"
proof -
  have env: "videoPresent wideTick" "canvasPresent wideTick" "contextAvailable wideTick"
    "0 < videoWidth wideTick" "0 < videoHeight wideTick" "dataURL wideTick \<noteq> ''''"
    by (simp_all add: wideTick_def)
  have prev: "previousFrameRef tallPrevious \<noteq> None"
    by (simp add: tallPrevious_def)
  have motion: "motionDetected (detection (detectMotion wideTick tallPrevious))"
    by code_simp
  have due: "CAPTURE_COOLDOWN < now1 wideTick - lastCaptureTimeRef tallPrevious"
    by (simp add: CAPTURE_COOLDOWN_def wideTick_def tallPrevious_def initialState_def)
  from capture_when_due[OF env prev _ due] motion prev due show ?thesis by simp
qed

text \<open>
  The first tick of a session sees fire, more than 1000 ms after the stamp, and captures
  nothing: the capture sits inside the test for a previous frame.
\<close>

theorem first_tick_fire_counterexample:
  "previousFrameRef initialState = None
   \<and> fireDetected (detection (detectMotion firstTick initialState))
   \<and> 1000 \<le> now1 firstTick - lastCaptureTimeRef initialState
   \<and> capturedFrames (detectMotion firstTick initialState) = []
   \<and> lastCaptureTimeRef (detectMotion firstTick initialState) = 0"
  by code_simp

text \<open>The cooldown test is strict: exactly 1000 ms after the stamp nothing is captured.\<close>

lemma cooldown_is_strict:
  "now1 exactTick - lastCaptureTimeRef monitoring = 1000
   \<and> motionDetected (detection (detectMotion exactTick monitoring))
   \<and> capturedFrames (detectMotion exactTick monitoring) = capturedFrames monitoring"
  by code_simp

section \<open>Spacing of the capture store\<close>

lemma spaced_append:
  "spaced gap (fs @ [f]) \<longleftrightarrow>
     spaced gap fs \<and> (\<forall>x \<in> set fs. gap \<le> timestamp f - timestamp x)"
  by (induction fs) auto

lemma storeInvariant_tick:
  assumes "storeInvariant delay s" and "now1 env \<le> now3 env" and "now1 env \<le> now2 env"
    and "now2 env - now3 env \<le> delay"
  shows "storeInvariant delay (detectMotion env s)"
  using detectMotion_cases[of env s] assms
  by (fastforce simp: storeInvariant_def spaced_append CAPTURE_COOLDOWN_def)

lemma storeInvariant_toggle:
  assumes "storeInvariant delay s"
  shows "storeInvariant delay (toggleDetection g p s)"
  using toggleDetection_frames[of g p s] assms
  by (auto simp: storeInvariant_def)

lemma storeInvariant_run:
  "storeInvariant delay s \<Longrightarrow> renderWithin delay evs \<Longrightarrow> storeInvariant delay (run s evs)"
proof (induction evs arbitrary: s)
  case Nil
  then show ?case by (simp add: run_def)
next
  case (Cons ev evs)
  show ?case
  proof (cases ev)
    case (Tick env)
    with Cons.prems have c: "now1 env \<le> now3 env" "now1 env \<le> now2 env"
      "now2 env - now3 env \<le> delay" "renderWithin delay evs" by simp_all
    have "storeInvariant delay (detectMotion env s)"
      using storeInvariant_tick[OF Cons.prems(1) c(1-3)] .
    from Cons.IH[OF this c(4)] show ?thesis using Tick by (simp add: run_def)
  next
    case (Toggle g p)
    with Cons.prems have c: "renderWithin delay evs" by simp
    from Cons.IH[OF storeInvariant_toggle[OF Cons.prems(1)] c] show ?thesis
      using Toggle by (simp add: run_def)
  next
    case LoadedMetadata
    with Cons.prems have c: "renderWithin delay evs" by simp
    have "storeInvariant delay (onloadedmetadata s)"
      using Cons.prems(1) by (simp add: storeInvariant_def)
    from Cons.IH[OF this c] show ?thesis using LoadedMetadata by (simp add: run_def)
  next
    case (SetSensitivity v)
    with Cons.prems have c: "renderWithin delay evs" by simp
    have "storeInvariant delay (s\<lparr>sensitivity := v\<rparr>)"
      using Cons.prems(1) by (simp add: storeInvariant_def)
    from Cons.IH[OF this c] show ?thesis using SetSensitivity by (simp add: run_def)
  qed
qed

text \<open>
  Claim C5, as amended. A tick appends only when more than 1000 ms have passed since the
  cooldown stamp, and then renews the stamp, more than 1000 ms after the one before. The
  entry's timestamp is read later, when
  React renders. From a store whose entries are at least \<open>1001 - delay\<close> ms apart and at
  most \<open>delay\<close> ms later than the stamp, every run of ticks, clicks on the monitoring
  button, metadata arrivals and slider moves in which each timestamp is read at most
  \<open>delay\<close> ms after its stamp leaves a store whose entries are pairwise at least
  \<open>1001 - delay\<close> ms apart.
\<close>

theorem capture_store_spacing_up_to_render_delay:
  assumes "spaced (1001 - delay) (capturedFrames s)"
    and "\<forall>f \<in> set (capturedFrames s). timestamp f \<le> lastCaptureTimeRef s + delay"
    and "renderWithin delay evs"
  shows "spaced (1001 - delay) (capturedFrames (run s evs))
         \<and> (capturedFrames (detectMotion env s) \<noteq> capturedFrames s \<longrightarrow>
              1000 < now1 env - lastCaptureTimeRef s
              \<and> lastCaptureTimeRef (detectMotion env s) = now3 env
              \<and> (now1 env \<le> now3 env \<longrightarrow>
                   1000 < lastCaptureTimeRef (detectMotion env s) - lastCaptureTimeRef s))"
proof -
  have "storeInvariant delay s"
    using assms(1,2) by (simp add: storeInvariant_def CAPTURE_COOLDOWN_def)
  from storeInvariant_run[OF this assms(3)]
  have "spaced (1001 - delay) (capturedFrames (run s evs))"
    by (simp add: storeInvariant_def CAPTURE_COOLDOWN_def)
  moreover have "capturedFrames (detectMotion env s) \<noteq> capturedFrames s \<longrightarrow>
                 1000 < now1 env - lastCaptureTimeRef s
                 \<and> lastCaptureTimeRef (detectMotion env s) = now3 env
                 \<and> (now1 env \<le> now3 env \<longrightarrow>
                      1000 < lastCaptureTimeRef (detectMotion env s) - lastCaptureTimeRef s)"
    using detectMotion_cases[of env s] by (auto simp: CAPTURE_COOLDOWN_def)
  ultimately show ?thesis by blast
qed

theorem capture_store_spacing_up_to_render_delay_witness:
  "renderWithin 2 [Tick stampedTick, Tick followingTick]
   \<and> length (capturedFrames (run tallPrevious [Tick stampedTick, Tick followingTick])) = 2
   \<and> spaced 999 (capturedFrames (run tallPrevious [Tick stampedTick, Tick followingTick]))
   \<and> capturedFrames (detectMotion stampedTick tallPrevious) \<noteq> capturedFrames tallPrevious
   \<and> 1000 < now1 stampedTick - lastCaptureTimeRef tallPrevious
   \<and> lastCaptureTimeRef (detectMotion stampedTick tallPrevious) = now3 stampedTick
   \<and> 1000 < lastCaptureTimeRef (detectMotion stampedTick tallPrevious)
            - lastCaptureTimeRef tallPrevious"
proof -
  have h1: "spaced (1001 - 2) (capturedFrames tallPrevious)"
    and h2: "\<forall>f \<in> set (capturedFrames tallPrevious).
               timestamp f \<le> lastCaptureTimeRef tallPrevious + 2"
    by (simp_all add: tallPrevious_def initialState_def)
  have h3: "renderWithin 2 [Tick stampedTick, Tick followingTick]"
    by (simp add: stampedTick_def followingTick_def)
  have two: "length (capturedFrames (run tallPrevious [Tick stampedTick, Tick followingTick])) = 2"
    by code_simp
  have appended:
    "capturedFrames (detectMotion stampedTick tallPrevious) \<noteq> capturedFrames tallPrevious"
    by code_simp
  have order: "now1 stampedTick \<le> now3 stampedTick" by (simp add: stampedTick_def)
  from capture_store_spacing_up_to_render_delay[OF h1 h2 h3, of stampedTick] h3 two appended
    order
  show ?thesis by simp
qed

text \<open>
  The clock never runs backwards here. The first tick stamps at 5000 ms and its entry
  reads 5002 ms at render; the second tick passes the cooldown test at 6001 ms: the two
  entries are 999 ms apart.
\<close>

theorem render_delay_counterexample:
  "clockMonotone 0 [Tick stampedTick, Tick followingTick]
   \<and> map timestamp (capturedFrames (run tallPrevious [Tick stampedTick, Tick followingTick]))
       = [5002, 6001]
   \<and> \<not> spaced 1000 (capturedFrames (run tallPrevious [Tick stampedTick, Tick followingTick]))"
  by code_simp

section \<open>The cooldown across a restart\<close>

lemma ticks_in_cooldown:
  assumes "\<forall>env \<in> set envs. now1 env - lastCaptureTimeRef s \<le> CAPTURE_COOLDOWN"
  shows "capturedFrames (run s (ticks envs)) = capturedFrames s
         \<and> lastCaptureTimeRef (run s (ticks envs)) = lastCaptureTimeRef s"
  using assms
proof (induction envs arbitrary: s)
  case Nil
  then show ?case by (simp add: run_def ticks_def)
next
  case (Cons env envs)
  have here: "capturedFrames (detectMotion env s) = capturedFrames s"
    "lastCaptureTimeRef (detectMotion env s) = lastCaptureTimeRef s"
    using detectMotion_cases[of env s] Cons.prems by auto
  have "\<forall>e \<in> set envs. now1 e - lastCaptureTimeRef (detectMotion env s) \<le> CAPTURE_COOLDOWN"
    using Cons.prems here by simp
  from Cons.IH[OF this] show ?case using here by (simp add: run_def ticks_def)
qed

text \<open>
  Claim C10. Stopping monitoring leaves the cooldown stamp as it is, and so does the
  restart. While the ticks of the new session come no more than 1000 ms after the stamp
  of the old one, none of them captures: the store stays empty and the stamp unchanged.
\<close>

theorem cooldown_carries_across_restart:
  assumes "isActive (detection s)"
    and "\<forall>env \<in> set envs. now1 env - lastCaptureTimeRef s \<le> CAPTURE_COOLDOWN"
  shows "lastCaptureTimeRef (stopCamera s) = lastCaptureTimeRef s
         \<and> lastCaptureTimeRef (run s [Toggle g p, Toggle True True, LoadedMetadata])
             = lastCaptureTimeRef s
         \<and> capturedFrames
             (run (run s [Toggle g p, Toggle True True, LoadedMetadata]) (ticks envs)) = []
         \<and> lastCaptureTimeRef
             (run (run s [Toggle g p, Toggle True True, LoadedMetadata]) (ticks envs))
             = lastCaptureTimeRef s"
proof -
  define r where "r = run s [Toggle g p, Toggle True True, LoadedMetadata]"
  have l: "lastCaptureTimeRef r = lastCaptureTimeRef s"
    by (simp add: r_def run_def)
  have c: "capturedFrames r = []"
    using assms(1) by (simp add: r_def run_def toggleDetection_def stopCamera_def Let_def)
  have "\<forall>env \<in> set envs. now1 env - lastCaptureTimeRef r \<le> CAPTURE_COOLDOWN"
    using assms(2) l by simp
  from ticks_in_cooldown[OF this] show ?thesis
    using l c unfolding r_def[symmetric] by simp
qed

theorem cooldown_carries_across_restart_witness:
  "isActive (detection monitoring)
   \<and> now1 soonTick - lastCaptureTimeRef monitoring \<le> CAPTURE_COOLDOWN
   \<and> lastCaptureTimeRef (stopCamera monitoring) = 4000
   \<and> capturedFrames
       (run (run monitoring [Toggle True True, Toggle True True, LoadedMetadata])
            (ticks [soonTick])) = []
   \<and> lastCaptureTimeRef
       (run (run monitoring [Toggle True True, Toggle True True, LoadedMetadata])
            (ticks [soonTick])) = 4000"
proof -
  have h1: "isActive (detection monitoring)" by (simp add: monitoring_def)
  have l: "lastCaptureTimeRef monitoring = 4000" by (simp add: monitoring_def)
  have h2: "\<forall>env \<in> set [soonTick]. now1 env - lastCaptureTimeRef monitoring \<le> CAPTURE_COOLDOWN"
    by (simp add: l soonTick_def CAPTURE_COOLDOWN_def)
  from cooldown_carries_across_restart[OF h1 h2, of True True] h1 h2 l show ?thesis by simp
qed

section \<open>Timelapse assembly over the frames\<close>

lemma drawNextFrame_result:
  "k \<le> length fs \<Longrightarrow>
   downloads (drawNextFrame env fs k a) = downloads a @ [stopTime env]
   \<and> drawn (drawNextFrame env fs k a) = drawn a @ filter (decodes env fs) [k..<length fs]
   \<and> console (drawNextFrame env fs k a) =
       console a @ map FailedFrame (filter (\<lambda>i. \<not> decodes env fs i) [k..<length fs])
   \<and> recorderStopped (drawNextFrame env fs k a)
   \<and> recorderStarted (drawNextFrame env fs k a) = recorderStarted a
   \<and> canvasSize (drawNextFrame env fs k a) = canvasSize a"
proof (induction "length fs - k" arbitrary: k a)
  case 0
  then have "drawNextFrame env fs k a =
             a\<lparr>recorderStopped := True, downloads := downloads a @ [stopTime env]\<rparr>"
    by (subst drawNextFrame.simps) simp
  then show ?case using 0 by simp
next
  case (Suc j)
  then have kn: "k < length fs" by simp
  have upt: "[k..<length fs] = k # [Suc k..<length fs]" using kn by (simp add: upt_conv_Cons)
  have IH: "downloads (drawNextFrame env fs (Suc k) a') = downloads a' @ [stopTime env]
   \<and> drawn (drawNextFrame env fs (Suc k) a') =
       drawn a' @ filter (decodes env fs) [Suc k..<length fs]
   \<and> console (drawNextFrame env fs (Suc k) a') =
       console a' @ map FailedFrame (filter (\<lambda>i. \<not> decodes env fs i) [Suc k..<length fs])
   \<and> recorderStopped (drawNextFrame env fs (Suc k) a')
   \<and> recorderStarted (drawNextFrame env fs (Suc k) a') = recorderStarted a'
   \<and> canvasSize (drawNextFrame env fs (Suc k) a') = canvasSize a'" for a'
    using Suc.hyps(1)[of "Suc k" a'] Suc.hyps(2) kn by simp
  show ?case
  proof (cases "decode env (dataUrl (fs ! k))")
    case None
    then have "drawNextFrame env fs k a =
               drawNextFrame env fs (Suc k) (a\<lparr>console := console a @ [FailedFrame k]\<rparr>)"
      using kn by (subst drawNextFrame.simps) simp
    then show ?thesis
      using IH[of "a\<lparr>console := console a @ [FailedFrame k]\<rparr>"] None
      by (simp add: upt decodes_def)
  next
    case (Some img)
    then have "drawNextFrame env fs k a =
               drawNextFrame env fs (Suc k) (a\<lparr>drawn := drawn a @ [k]\<rparr>)"
      using kn by (subst drawNextFrame.simps) simp
    then show ?thesis
      using IH[of "a\<lparr>drawn := drawn a @ [k]\<rparr>"] Some
      by (simp add: upt decodes_def)
  qed
qed

text \<open>
  Claim C8, as amended. With at least two captured frames, a 2D context, a recorder for
  the VP9 type and a first frame that loads, every later frame that fails to load is
  logged and skipped, the frames that load are drawn in order, and after the last frame
  the recorder is stopped once, which downloads exactly one file. The state is unchanged.
\<close>

theorem createTimelapse_skips_undecodable:
  assumes "2 \<le> length (capturedFrames s)"
    and "ctxAvailable env" and "mimeTypeSupported env"
    and "decodes env (capturedFrames s) 0"
  shows "downloads (snd (createTimelapse env s)) = [stopTime env]
         \<and> drawn (snd (createTimelapse env s)) =
             filter (decodes env (capturedFrames s)) [0..<length (capturedFrames s)]
         \<and> console (snd (createTimelapse env s)) =
             map FailedFrame
               (filter (\<lambda>i. \<not> decodes env (capturedFrames s) i) [0..<length (capturedFrames s)])
         \<and> recorderStarted (snd (createTimelapse env s))
         \<and> recorderStopped (snd (createTimelapse env s))
         \<and> fst (createTimelapse env s) = s"
proof -
  obtain img where img: "decode env (dataUrl (capturedFrames s ! 0)) = Some img"
    using assms(4) by (auto simp: decodes_def)
  define a0 where "a0 = noAssembly\<lparr>canvasSize := Some img, recorderStarted := True\<rparr>"
  have eq: "createTimelapse env s = (s, drawNextFrame env (capturedFrames s) 0 a0)"
    using assms(1-3) img by (simp add: createTimelapse_def a0_def)
  have a0: "downloads a0 = []" "drawn a0 = []" "console a0 = []" "recorderStarted a0"
    by (simp_all add: a0_def noAssembly_def)
  show ?thesis
    unfolding eq using drawNextFrame_result[of 0 "capturedFrames s" env a0] a0 by simp
qed

theorem createTimelapse_skips_undecodable_witness:
  "2 \<le> length (capturedFrames brokenSecond)
   \<and> decodes oneBroken (capturedFrames brokenSecond) 0
   \<and> \<not> decodes oneBroken (capturedFrames brokenSecond) 1
   \<and> downloads (snd (createTimelapse oneBroken brokenSecond)) = [9000]
   \<and> drawn (snd (createTimelapse oneBroken brokenSecond)) = [0, 2]
   \<and> console (snd (createTimelapse oneBroken brokenSecond)) = [FailedFrame 1]"
proof -
  have h1: "2 \<le> length (capturedFrames brokenSecond)"
    by (simp add: brokenSecond_def)
  have h2: "ctxAvailable oneBroken" and h3: "mimeTypeSupported oneBroken"
    by (simp_all add: oneBroken_def)
  have h4: "decodes oneBroken (capturedFrames brokenSecond) 0"
    by (simp add: decodes_def oneBroken_def brokenSecond_def)
  have n: "length (capturedFrames brokenSecond) = 3" by (simp add: brokenSecond_def)
  have u: "[0..<3] = [0, 1, 2]" by (simp add: upt_rec)
  have d: "\<not> decodes oneBroken (capturedFrames brokenSecond) 1"
    "decodes oneBroken (capturedFrames brokenSecond) 2"
    by (simp_all add: decodes_def oneBroken_def brokenSecond_def)
  from createTimelapse_skips_undecodable[OF h1 h2 h3 h4] h1 h4 d show ?thesis
    by (simp add: n u oneBroken_def)
qed

text \<open>
  When it is the first frame that fails to load, its \<^verbatim>\<open>onerror\<close> handler logs the failure
  and nothing follows: no recorder, no frame drawn, no file.
\<close>

theorem first_frame_fails_counterexample:
  "2 \<le> length (capturedFrames brokenFirst)
   \<and> \<not> decodes oneBroken (capturedFrames brokenFirst) 0
   \<and> decodes oneBroken (capturedFrames brokenFirst) 1
   \<and> downloads (snd (createTimelapse oneBroken brokenFirst)) = []
   \<and> drawn (snd (createTimelapse oneBroken brokenFirst)) = []
   \<and> console (snd (createTimelapse oneBroken brokenFirst)) = [FailedFirstFrame]"
  by code_simp

section \<open>The alarm's gate\<close>

text \<open>The time of a gain event, \<^verbatim>\<open>now + k\<close> for a literal \<open>k\<close>, against the exact sum.\<close>

lemma gate_time_close:
  assumes "0 \<le> ct" and "0 \<le> k" and "k \<le> 6 / 10"
  shows "\<bar>js_add ct (to_double k) - (ct + k)\<bar> \<le> (ct + 1) / 2 ^ 52"
proof -
  define a where "a = to_double k"
  have a0: "0 \<le> a" unfolding a_def using assms(2) by (rule to_double_nonneg)
  have ak: "\<bar>a - k\<bar> \<le> k / 2 ^ 53" unfolding a_def using assms(2) by (rule to_double_error)
  have s0: "0 \<le> ct + a" using assms(1) a0 by simp
  have b: "\<bar>to_double (ct + a) - (ct + a)\<bar> \<le> (ct + a) / 2 ^ 53"
    using s0 by (rule to_double_error)
  have e52: "(2::rat) ^ 52 = 4503599627370496" by simp
  have ak': "a - k \<le> k / 2 ^ 53" "- (a - k) \<le> k / 2 ^ 53"
    using ak by (simp_all only: abs_le_iff)
  have b': "to_double (ct + a) - (ct + a) \<le> (ct + a) / 2 ^ 53"
    "- (to_double (ct + a) - (ct + a)) \<le> (ct + a) / 2 ^ 53"
    using b by (simp_all only: abs_le_iff)
  have d1: "(ct + a) / 9007199254740992 = ct / 9007199254740992 + a / 9007199254740992"
    by (simp add: add_divide_distrib)
  have d2: "(ct + 1) / 4503599627370496 = ct / 4503599627370496 + 1 / 4503599627370496"
    by (simp add: add_divide_distrib)
  have up: "to_double (ct + a) - (ct + k) \<le> (ct + 1) / 2 ^ 52"
    using ak' b' assms unfolding two_53 e52 d1 d2 by linarith
  have lo: "- (to_double (ct + a) - (ct + k)) \<le> (ct + 1) / 2 ^ 52"
    using ak' b' assms unfolding two_53 e52 d1 d2 by linarith
  have "\<bar>to_double (ct + a) - (ct + k)\<bar> \<le> (ct + 1) / 2 ^ 52"
    using up lo by (simp only: abs_le_iff)
  then show ?thesis by (simp add: js_add_def a_def)
qed

lemma gate_times_ascend:
  assumes "0 \<le> ct" and "to_double ct = ct"
  shows "ct \<le> js_add ct (to_double (2 / 10))"
    and "js_add ct (to_double (2 / 10)) \<le> js_add ct (to_double (4 / 10))"
    and "js_add ct (to_double (4 / 10)) \<le> js_add ct (to_double (6 / 10))"
proof -
  have l: "(0::rat) \<le> to_double (2 / 10)" "to_double (2 / 10) \<le> to_double (4 / 10)"
    "to_double (4 / 10) \<le> to_double (6 / 10)"
    by (rule to_double_nonneg, simp) (rule to_double_mono, simp, simp)+
  have "to_double ct \<le> to_double (ct + to_double (2 / 10))"
    using assms(1) l(1) by (intro to_double_mono) simp_all
  then show "ct \<le> js_add ct (to_double (2 / 10))"
    by (simp add: js_add_def assms(2))
  show "js_add ct (to_double (2 / 10)) \<le> js_add ct (to_double (4 / 10))"
    unfolding js_add_def using assms(1) l by (intro to_double_mono) simp_all
  show "js_add ct (to_double (4 / 10)) \<le> js_add ct (to_double (6 / 10))"
    unfolding js_add_def using assms(1) l by (intro to_double_mono) simp_all
qed

text \<open>
  Claim C9, as amended. Started with no tone sounding at a time \<open>ct\<close> of the audio clock,
  the alarm is a 440 Hz square wave whose gain is set to 1 at \<open>ct\<close>, to 0 at \<open>ct + 0.2\<close>, to
  1 at \<open>ct + 0.4\<close> and to 0 at \<open>ct + 0.6\<close>, the three sums taken in binary64, each within
  \<open>(ct + 1) / 2 ^ 52\<close> seconds of the exact one. So the gain is 1 from the start to the
  second event, 0 to the third, 1 to the fourth, and 0 from the fourth on: the four events
  are issued once, at the start.
\<close>

theorem startAlarm_gate_once:
  assumes "oscillatorRef s = None" and "0 \<le> ct" and "to_double ct = ct"
  shows "map_option wave (oscillatorRef (startAlarm ct s)) = Some Square
         \<and> map_option frequency (oscillatorRef (startAlarm ct s)) = Some 440
         \<and> map_option gainEvents (oscillatorRef (startAlarm ct s)) =
             Some [(1, ct), (0, js_add ct (to_double (2 / 10))),
                   (1, js_add ct (to_double (4 / 10))), (0, js_add ct (to_double (6 / 10)))]
         \<and> (ct \<le> t \<and> t < js_add ct (to_double (2 / 10)) \<longrightarrow>
              currentGain (startAlarm ct s) t = Some 1)
         \<and> (js_add ct (to_double (2 / 10)) \<le> t \<and> t < js_add ct (to_double (4 / 10)) \<longrightarrow>
              currentGain (startAlarm ct s) t = Some 0)
         \<and> (js_add ct (to_double (4 / 10)) \<le> t \<and> t < js_add ct (to_double (6 / 10)) \<longrightarrow>
              currentGain (startAlarm ct s) t = Some 1)
         \<and> (js_add ct (to_double (6 / 10)) \<le> t \<longrightarrow> currentGain (startAlarm ct s) t = Some 0)
         \<and> \<bar>js_add ct (to_double (2 / 10)) - (ct + 2 / 10)\<bar> \<le> (ct + 1) / 2 ^ 52
         \<and> \<bar>js_add ct (to_double (4 / 10)) - (ct + 4 / 10)\<bar> \<le> (ct + 1) / 2 ^ 52
         \<and> \<bar>js_add ct (to_double (6 / 10)) - (ct + 6 / 10)\<bar> \<le> (ct + 1) / 2 ^ 52"
proof -
  define T1 where "T1 = js_add ct (to_double (2 / 10))"
  define T2 where "T2 = js_add ct (to_double (4 / 10))"
  define T3 where "T3 = js_add ct (to_double (6 / 10))"
  have asc: "ct \<le> T1" "T1 \<le> T2" "T2 \<le> T3"
    unfolding T1_def T2_def T3_def using gate_times_ascend[OF assms(2,3)] by simp_all
  have tone: "oscillatorRef (startAlarm ct s) =
              Some \<lparr>wave = Square, frequency = 440,
                    gainEvents = [(1, ct), (0, T1), (1, T2), (0, T3)], running = True\<rparr>"
    using assms(1) by (simp add: startAlarm_def Let_def T1_def T2_def T3_def)
  have gain: "currentGain (startAlarm ct s) t =
              Some (gainAt [(1, ct), (0, T1), (1, T2), (0, T3)] t)"
    by (simp add: currentGain_def tone)
  have g1: "ct \<le> t \<and> t < T1 \<longrightarrow> currentGain (startAlarm ct s) t = Some 1"
    using asc by (auto simp: gain gainAt_def)
  have g2: "T1 \<le> t \<and> t < T2 \<longrightarrow> currentGain (startAlarm ct s) t = Some 0"
    using asc by (auto simp: gain gainAt_def)
  have g3: "T2 \<le> t \<and> t < T3 \<longrightarrow> currentGain (startAlarm ct s) t = Some 1"
    using asc by (auto simp: gain gainAt_def)
  have g4: "T3 \<le> t \<longrightarrow> currentGain (startAlarm ct s) t = Some 0"
    using asc by (auto simp: gain gainAt_def)
  have c: "\<bar>T1 - (ct + 2 / 10)\<bar> \<le> (ct + 1) / 2 ^ 52"
    "\<bar>T2 - (ct + 4 / 10)\<bar> \<le> (ct + 1) / 2 ^ 52"
    "\<bar>T3 - (ct + 6 / 10)\<bar> \<le> (ct + 1) / 2 ^ 52"
    unfolding T1_def T2_def T3_def using assms(2) by (intro gate_time_close; simp)+
  show ?thesis
    using g1 g2 g3 g4 c unfolding T1_def[symmetric] T2_def[symmetric] T3_def[symmetric]
    by (simp add: tone)
qed

theorem startAlarm_gate_once_witness:
  "oscillatorRef initialState = None
   \<and> map_option frequency (oscillatorRef (startAlarm 0 initialState)) = Some 440
   \<and> currentGain (startAlarm 0 initialState) (1 / 10) = Some 1
   \<and> currentGain (startAlarm 0 initialState) (3 / 10) = Some 0
   \<and> currentGain (startAlarm 0 initialState) (5 / 10) = Some 1
   \<and> currentGain (startAlarm 0 initialState) (to_double (6 / 10)) = Some 0
   \<and> currentGain (startAlarm 0 initialState) (7 / 10) = Some 0"
proof -
  have h: "oscillatorRef initialState = None" by (simp add: initialState_def)
  have z: "(0::rat) \<le> 0" "to_double 0 = 0" by (simp_all add: to_double_def)
  have t1: "(0::rat) \<le> 1 / 10 \<and> 1 / 10 < js_add 0 (to_double (2 / 10))" by code_simp
  have t3: "js_add 0 (to_double (2 / 10)) \<le> 3 / 10 \<and> 3 / 10 < js_add 0 (to_double (4 / 10))"
    by code_simp
  have t5: "js_add 0 (to_double (4 / 10)) \<le> 5 / 10 \<and> 5 / 10 < js_add 0 (to_double (6 / 10))"
    by code_simp
  have t6: "js_add 0 (to_double (6 / 10)) \<le> to_double (6 / 10)" by code_simp
  have t7: "js_add 0 (to_double (6 / 10)) \<le> 7 / 10" by code_simp
  have "map_option frequency (oscillatorRef (startAlarm 0 initialState)) = Some 440"
    using startAlarm_gate_once[OF h z] by blast
  moreover have "currentGain (startAlarm 0 initialState) (1 / 10) = Some 1"
    using startAlarm_gate_once[OF h z, of "1 / 10"] t1 by blast
  moreover have "currentGain (startAlarm 0 initialState) (3 / 10) = Some 0"
    using startAlarm_gate_once[OF h z, of "3 / 10"] t3 by blast
  moreover have "currentGain (startAlarm 0 initialState) (5 / 10) = Some 1"
    using startAlarm_gate_once[OF h z, of "5 / 10"] t5 by blast
  moreover have "currentGain (startAlarm 0 initialState) (to_double (6 / 10)) = Some 0"
    using startAlarm_gate_once[OF h z, of "to_double (6 / 10)"] t6 by blast
  moreover have "currentGain (startAlarm 0 initialState) (7 / 10) = Some 0"
    using startAlarm_gate_once[OF h z, of "7 / 10"] t7 by blast
  ultimately show ?thesis using h by blast
qed

text \<open>
  Nothing issues the gate again: 900 ms after the start, where a repeating gate is on,
  the gain is 0.
\<close>

theorem alarm_gate_repeats_counterexample:
  "currentGain (startAlarm 0 initialState) (9 / 10) = Some 0 \<and> repeatingGate (9 / 10) = 1"
  by code_simp

end
